theory Spec2Isabelle
  imports Main "HOL-Library.Word" "HOL-Library.Multiset"
begin

unbundle bit_operations_syntax

text \<open>
  A model of the two source files of the crossword generator: the dictionary with its
  index of packed keys and its query cache (\<open>src/dictionary.cpp\<close>), and the extraction
  of the slots of a board (\<open>src/crossword.cpp\<close>). Each function of the sources is a
  definition of the same name; an unchecked access outside an array, a vector or a
  string, where the behaviour of the program is undefined, is the result
  \<open>Inl OutOfBounds\<close>, and an exception is the result \<open>Inl\<close> of its error. The
  definitions come first, then the notions used to state and prove the properties, then
  the proofs, one subsection for each property.
\<close>

section \<open>The dictionary (src/dictionary.cpp)\<close>

subsection \<open>Data\<close>

text \<open>
  A \<open>std::string\<close> is a sequence of bytes; the dictionary is in the Windows-1251 code
  page, so a letter is one byte. Word identifiers are \<open>uint16_t\<close>, packed keys are
  \<open>uint64_t\<close>, masks are \<open>uint32_t\<close>.
\<close>

type_synonym byte = "8 word"
type_synonym str = "byte list"
type_synonym bucket = "16 word list"

text \<open>
  Modelled from the spec: the header \<open>dictionary.hpp\<close> is not part of the sources, so
  the three constants it declares are parameters of the model. \<open>LONGEST_WORD\<close> is the
  number of entries of the array \<open>_fastSearch\<close> (the range over which \<open>reset\<close> and
  \<open>shuffle\<close> iterate, "indexed by word length, bounded by a maximum supported word
  length"); \<open>ANY_CHAR\<close> is the byte of the "unknown" placeholder of a pattern;
  \<open>CYRILLIC_A\<close> is the value of the first lower-case letter, as the integer that the
  comparisons with \<open>uint8_t(c)\<close> promote it to.
\<close>

record header =
  LONGEST_WORD :: nat
  ANY_CHAR :: byte
  CYRILLIC_A :: int

datatype error = OutOfBounds | RuntimeError | IniParserError | DanglingReference

text \<open>
  The members of \<open>Dictionary\<close>. \<open>_dirtyDict\<close> and \<open>_explanationDict\<close> are maps from the
  canonical key; \<open>_fastSearch\<close> is an array, indexed by word length, of maps from a packed
  key to a bucket of identifiers; \<open>_cacheSearchMap\<close> maps a pattern to its (heap-allocated)
  list of identifiers.
\<close>

record dictionary =
  allWords :: "str list"
  dirtyDict :: "str \<rightharpoonup> str"
  explanationDict :: "str \<rightharpoonup> str"
  fastSearch :: "(64 word \<rightharpoonup> bucket) list"
  cacheSearchMap :: "str \<rightharpoonup> bucket"

subsection \<open>Text normalizer\<close>

text \<open>\<open>char Dictionary::toupper(char c)\<close>: the result is narrowed to a byte again.\<close>

definition toupper_char :: "header \<Rightarrow> byte \<Rightarrow> byte" where
  "toupper_char h c = (if CYRILLIC_A h \<le> uint c then c - 32 else c)"

definition toupper :: "header \<Rightarrow> str \<Rightarrow> str" where
  "toupper h capsWord = map (toupper_char h) capsWord"

definition isalpha :: "header \<Rightarrow> byte \<Rightarrow> bool" where
  "isalpha h c \<longleftrightarrow> CYRILLIC_A h - 32 \<le> uint c"

definition dosToWinCode :: "header \<Rightarrow> str \<Rightarrow> str" where
  "dosToWinCode h winWord =
     map (\<lambda>c. if CYRILLIC_A h - 96 \<le> uint c \<and> uint c < CYRILLIC_A h - 32 then c + 64 else c)
       winWord"

definition cleanString :: "header \<Rightarrow> str \<Rightarrow> str" where
  "cleanString h dirtyString = filter (isalpha h) dirtyString"

text \<open>The canonical key as \<open>loadDictionary\<close> computes it from a raw word (lines 166 and 169).\<close>

definition canonical :: "header \<Rightarrow> str \<Rightarrow> str" where
  "canonical h raw = toupper h (cleanString h (dosToWinCode h raw))"

subsection \<open>Edit distance\<close>

text \<open>
  \<open>Dictionary::levenstein\<close>. The table \<open>dp\<close> is a vector of rows; the two loops run over
  \<open>0..a.length()\<close> and \<open>0..b.length()\<close>, and each cell is written as the source writes it
  (the counters are \<open>uint32_t\<close>; strings are taken shorter than \<open>2^32\<close> bytes, so that the
  counters do not wrap).
\<close>

definition levenstein_cell :: "str \<Rightarrow> str \<Rightarrow> int list list \<Rightarrow> nat \<Rightarrow> nat \<Rightarrow> int list list" where
  "levenstein_cell a b dp i j =
     (if min i j = 0 then dp[i := (dp ! i)[j := 0]]
      else
        let dp1 = dp[i := (dp ! i)[j := min (dp ! (i - 1) ! j + 1) (dp ! i ! (j - 1) + 1)]]
        in dp1[i := (dp1 ! i)[j := min (dp1 ! i ! j)
                 (dp1 ! (i - 1) ! (j - 1) + (if a ! (i - 1) \<noteq> b ! (j - 1) then 1 else 0))]])"

definition levenstein :: "str \<Rightarrow> str \<Rightarrow> int" where
  "levenstein a b =
     (let dp0 = replicate (length a + 1) (replicate (length b + 1) 0);
          dp = foldl (\<lambda>dp i. foldl (\<lambda>dp j. levenstein_cell a b dp i j) dp [0 ..< length b + 1])
                 dp0 [0 ..< length a + 1]
      in dp ! length a ! length b)"

text \<open>
  The classic Levenshtein distance as the specification words it: insertion, deletion and
  substitution cost 1 each, and the base row and column hold the position.
\<close>

fun edit_distance :: "str \<Rightarrow> str \<Rightarrow> nat" where
  "edit_distance [] ys = length ys"
| "edit_distance xs [] = length xs"
| "edit_distance (x # xs) (y # ys) =
     min (min (edit_distance xs (y # ys) + 1) (edit_distance (x # xs) ys + 1))
         (edit_distance xs ys + (if x \<noteq> y then 1 else 0))"

subsection \<open>Key packing\<close>

text \<open>
  One \<open>case\<close> label of the switch in \<open>getKey(mask, word)\<close>:
  \<open>key |= ((mask >> k & 1u) ? (uint64_t(uint8_t(word[k])) << 8 * k) : 0ull)\<close>.
\<close>

definition key_case :: "32 word \<Rightarrow> str \<Rightarrow> nat \<Rightarrow> 64 word \<Rightarrow> 64 word" where
  "key_case msk word k key =
     key OR (if drop_bit k msk AND 1 \<noteq> 0 then push_bit (8 * k) (ucast (word ! k)) else 0)"

text \<open>
  The switch falls through from the label of \<open>word.size()\<close> down to \<open>case 0\<close>, and
  \<open>default\<close> enters at \<open>case 6\<close>: the statement at label \<open>k + 1\<close> runs exactly when the word
  has more than \<open>k\<close> bytes.
\<close>

definition getKey_mask :: "32 word \<Rightarrow> str \<Rightarrow> 64 word" where
  "getKey_mask msk word =
     (let n = length word;
          key = 0;
          key = (if 6 \<le> n then key_case msk word 5 key else key);
          key = (if 5 \<le> n then key_case msk word 4 key else key);
          key = (if 4 \<le> n then key_case msk word 3 key else key);
          key = (if 3 \<le> n then key_case msk word 2 key else key);
          key = (if 2 \<le> n then key_case msk word 1 key else key);
          key = (if 1 \<le> n then key_case msk word 0 key else key)
      in key)"

text \<open>One label of \<open>getKey(word)\<close>: \<open>key |= (uint64_t(uint8_t(word[k])) << 8 * k)\<close>.\<close>

definition key_byte :: "str \<Rightarrow> nat \<Rightarrow> 64 word \<Rightarrow> 64 word" where
  "key_byte word k key = key OR push_bit (8 * k) (ucast (word ! k))"

definition getKey :: "str \<Rightarrow> 64 word" where
  "getKey word =
     (let n = length word;
          key = 0;
          key = (if 6 \<le> n then key_byte word 5 key else key);
          key = (if 5 \<le> n then key_byte word 4 key else key);
          key = (if 4 \<le> n then key_byte word 3 key else key);
          key = (if 3 \<le> n then key_byte word 2 key else key);
          key = (if 2 \<le> n then key_byte word 1 key else key);
          key = (if 1 \<le> n then key_byte word 0 key else key)
      in key)"

subsection \<open>Loading\<close>

text \<open>
  \<open>map[key]\<close> of a standard map creates an empty bucket when the key is absent;
  \<open>bucket_of\<close> is the bucket that the reference then designates.
\<close>

definition bucket_of :: "(64 word \<rightharpoonup> bucket) \<Rightarrow> 64 word \<Rightarrow> bucket" where
  "bucket_of m key = (case m key of None \<Rightarrow> [] | Some xs \<Rightarrow> xs)"

text \<open>The body of the loop of \<open>addToFastSearch\<close>: \<open>currentFastSearch[key].push_back(index)\<close>.\<close>

definition push_index :: "str \<Rightarrow> 16 word \<Rightarrow> (64 word \<rightharpoonup> bucket) \<Rightarrow> nat \<Rightarrow> (64 word \<rightharpoonup> bucket)" where
  "push_index newWord index m msk =
     (let key = getKey_mask (of_nat msk) newWord in m(key \<mapsto> bucket_of m key @ [index]))"

text \<open>
  \<open>addToFastSearch\<close>. \<open>_fastSearch[newWord.size()]\<close> is an unchecked array access: outside
  the array the behaviour of the program is undefined, which the model reports as
  \<open>OutOfBounds\<close>.
\<close>

definition addToFastSearch :: "str \<Rightarrow> 16 word \<Rightarrow> dictionary \<Rightarrow> error + dictionary" where
  "addToFastSearch newWord index d =
     (if length newWord < length (fastSearch d) then
        Inr (d\<lparr>fastSearch := (fastSearch d)[length newWord :=
               foldl (push_index newWord index) (fastSearch d ! length newWord) [0 ..< 64]]\<rparr>)
      else Inl OutOfBounds)"

definition reset :: "header \<Rightarrow> dictionary \<Rightarrow> dictionary" where
  "reset h d = d\<lparr>allWords := [], dirtyDict := Map.empty, explanationDict := Map.empty,
     cacheSearchMap := Map.empty, fastSearch := replicate (LONGEST_WORD h) Map.empty\<rparr>"

text \<open>\<open>emplace\<close> of a standard map inserts only when the key is absent.\<close>

definition emplace :: "'k \<Rightarrow> 'v \<Rightarrow> ('k \<rightharpoonup> 'v) \<Rightarrow> ('k \<rightharpoonup> 'v)" where
  "emplace k v m = (case m k of None \<Rightarrow> m(k \<mapsto> v) | Some _ \<Rightarrow> m)"

text \<open>
  The loop of \<open>loadDictionary\<close> over the records of the file. A record is the pair of
  strings that the two \<open>getline\<close> calls deliver: the raw word (up to the tab) and the
  explanation (up to the end of the line). The identifier is \<open>_allWords.size()\<close>
  converted to \<open>uint16_t\<close>.
\<close>

fun load_records :: "header \<Rightarrow> (str \<times> str) list \<Rightarrow> dictionary \<Rightarrow> error + dictionary" where
  "load_records h [] d = Inr d"
| "load_records h ((rawWord, rawExplanation) # rest) d =
     (let nextWord = dosToWinCode h rawWord;
          explanation = dosToWinCode h rawExplanation;
          clean = toupper h (cleanString h nextWord);
          d1 = d\<lparr>dirtyDict := emplace clean nextWord (dirtyDict d),
                 explanationDict := emplace clean explanation (explanationDict d)\<rparr>
      in case addToFastSearch clean (of_nat (length (allWords d1))) d1 of
           Inl e \<Rightarrow> Inl e
         | Inr d2 \<Rightarrow> load_records h rest (d2\<lparr>allWords := allWords d2 @ [clean]\<rparr>))"

text \<open>
  \<open>loadDictionary\<close>: the file is \<open>None\<close> when it cannot be opened, and else its records.
\<close>

definition loadDictionary :: "header \<Rightarrow> (str \<times> str) list option \<Rightarrow> dictionary \<Rightarrow> error + dictionary" where
  "loadDictionary h file d =
     (case file of None \<Rightarrow> Inr (reset h d) | Some records \<Rightarrow> load_records h records (reset h d))"



subsection \<open>Shuffling\<close>

text \<open>
  \<open>std::random_shuffle\<close> leaves some permutation of the range; which one is not
  determined. \<open>shuffle\<close> is therefore a relation between the state before and a state
  after: the same keys everywhere, and every bucket and every cached list rearranged.
\<close>

definition permuted :: "bucket option \<Rightarrow> bucket option \<Rightarrow> bool" where
  "permuted x y = rel_option (\<lambda>xs ys. mset xs = mset ys) x y"

definition shuffle :: "dictionary \<Rightarrow> dictionary \<Rightarrow> bool" where
  "shuffle d d' \<longleftrightarrow>
     allWords d' = allWords d \<and> dirtyDict d' = dirtyDict d \<and>
     explanationDict d' = explanationDict d \<and>
     list_all2 (\<lambda>m m'. \<forall>key. permuted (m key) (m' key)) (fastSearch d) (fastSearch d') \<and>
     (\<forall>pattern. permuted (cacheSearchMap d pattern) (cacheSearchMap d' pattern))"

subsection \<open>Querying\<close>

text \<open>
  Modelled from the spec: \<open>getFromIndex\<close> is defined in the absent header; it is the
  "resolution function from identifier to the canonical word string" over the word table,
  an unchecked \<open>_allWords[index]\<close>.
\<close>

definition getFromIndex :: "dictionary \<Rightarrow> 16 word \<Rightarrow> error + str" where
  "getFromIndex d index =
     (if unat index < length (allWords d) then Inr (allWords d ! unat index) else Inl OutOfBounds)"

text \<open>
  \<open>s[i]\<close> on a constant \<open>std::string\<close>: the byte at \<open>i\<close>, the terminating zero at
  \<open>i = s.size()\<close>, and undefined beyond.
\<close>

definition char_at :: "str \<Rightarrow> nat \<Rightarrow> error + byte" where
  "char_at s i = (if i < length s then Inr (s ! i) else if i = length s then Inr 0 else Inl OutOfBounds)"

fun isPossible :: "str \<Rightarrow> str \<Rightarrow> nat list \<Rightarrow> error + bool" where
  "isPossible pattern contender [] = Inr True"
| "isPossible pattern contender (i # filledIndices) =
     (case char_at pattern i of
        Inl e \<Rightarrow> Inl e
      | Inr p \<Rightarrow>
          (case char_at contender i of
             Inl e \<Rightarrow> Inl e
           | Inr c \<Rightarrow> if p \<noteq> c then Inr False else isPossible pattern contender filledIndices))"

text \<open>The loop \<open>for (auto contender : narrowedWords)\<close> of the long-pattern branch.\<close>

fun verify_contenders :: "dictionary \<Rightarrow> str \<Rightarrow> nat list \<Rightarrow> bucket \<Rightarrow> bucket \<Rightarrow> error + bucket" where
  "verify_contenders d pattern filledIndices [] possibleWordIndices = Inr possibleWordIndices"
| "verify_contenders d pattern filledIndices (contender # narrowedWords) possibleWordIndices =
     (case getFromIndex d contender of
        Inl e \<Rightarrow> Inl e
      | Inr word \<Rightarrow>
          (case isPossible pattern word filledIndices of
             Inl e \<Rightarrow> Inl e
           | Inr ok \<Rightarrow>
               verify_contenders d pattern filledIndices narrowedWords
                 (if ok then possibleWordIndices @ [contender] else possibleWordIndices)))"

text \<open>
  \<open>findPossible\<close>. The result view (a count, an iterator into the stored list and the
  resolution function) is modelled by the list of identifiers it enumerates; the
  function also returns the new state, since it fills the cache and since
  \<open>_fastSearch[pattern.size()][key]\<close> creates the bucket when it is absent. The array
  access is unchecked, as in \<open>addToFastSearch\<close>.
\<close>

definition findPossible :: "header \<Rightarrow> str \<Rightarrow> dictionary \<Rightarrow> error + (bucket \<times> dictionary)" where
  "findPossible h pattern d =
     (case cacheSearchMap d pattern of
        Some newCachePosition \<Rightarrow> Inr (newCachePosition, d)
      | None \<Rightarrow>
          let key = getKey pattern in
          if length pattern < length (fastSearch d) then
            let m = fastSearch d ! length pattern;
                narrowedWords = bucket_of m key;
                d1 = d\<lparr>fastSearch := (fastSearch d)[length pattern := m(key \<mapsto> narrowedWords)]\<rparr>
            in if length pattern \<le> 6 then
                 Inr (narrowedWords, d1\<lparr>cacheSearchMap := (cacheSearchMap d1)(pattern \<mapsto> narrowedWords)\<rparr>)
               else
                 let filledIndices = filter (\<lambda>i. pattern ! i \<noteq> ANY_CHAR h) [0 ..< length pattern]
                 in case verify_contenders d1 pattern filledIndices narrowedWords [] of
                      Inl e \<Rightarrow> Inl e
                    | Inr possibleWordIndices \<Rightarrow>
                        Inr (possibleWordIndices,
                             d1\<lparr>cacheSearchMap := (cacheSearchMap d1)(pattern \<mapsto> possibleWordIndices)\<rparr>)
          else Inl OutOfBounds)"

subsection \<open>The constructor\<close>

text \<open>
  The state of the members when the body of a constructor starts: every container
  empty.
\<close>

definition new_dictionary :: "header \<Rightarrow> dictionary" where
  "new_dictionary h = \<lparr>allWords = [], dirtyDict = Map.empty, explanationDict = Map.empty,
     fastSearch = replicate (LONGEST_WORD h) Map.empty, cacheSearchMap = Map.empty\<rparr>"

text \<open>
  The files the constructor reads. \<open>read_ini\<close> of the property-tree library throws when
  the file cannot be opened or cannot be parsed, and else fills the tree (a map from the
  path of a key to its value); an \<open>ifstream\<close> converts to true when the file could be
  opened. A dictionary file is given by its records, as in \<open>loadDictionary\<close>.
\<close>

datatype ini_file = Missing | Malformed | Parsed "string \<rightharpoonup> string"

record filesystem =
  ini_files :: "string \<Rightarrow> ini_file"
  dictionary_files :: "string \<Rightarrow> (str \<times> str) list option"

definition DEFAULT_DICTIONARY_PATH :: string where
  "DEFAULT_DICTIONARY_PATH = ''z:/cross/bigdict.txt''"

definition DEFAULT_CONFIG_PATH :: string where
  "DEFAULT_CONFIG_PATH = ''z:/cross/config/config.ini''"

definition read_ini :: "filesystem \<Rightarrow> string \<Rightarrow> error + (string \<rightharpoonup> string)" where
  "read_ini fs path = (case ini_files fs path of Parsed tree \<Rightarrow> Inr tree | _ \<Rightarrow> Inl IniParserError)"

definition ifstream_opens :: "filesystem \<Rightarrow> string \<Rightarrow> bool" where
  "ifstream_opens fs path \<longleftrightarrow> ini_files fs path \<noteq> Missing"

text \<open>
  Lines 39 to 53 of \<open>Dictionary(const std::string& configFilePath)\<close>: the handler of the
  first \<open>read_ini\<close> throws \<open>std::runtime_error\<close> when the stream on the default path
  is good, and else calls \<open>read_ini\<close> on \<open>configFilePath\<close> again, outside any \<open>try\<close>.
\<close>

definition read_config :: "filesystem \<Rightarrow> string \<Rightarrow> error + (string \<rightharpoonup> string)" where
  "read_config fs configFilePath =
     (case read_ini fs configFilePath of
        Inr tree \<Rightarrow> Inr tree
      | Inl e \<Rightarrow>
          if ifstream_opens fs DEFAULT_CONFIG_PATH then Inl RuntimeError
          else read_ini fs configFilePath)"

text \<open>
  The rest of the constructor up to \<open>loadDictionary()\<close>: the path of the dictionary is
  the value of \<open>dictionary.dictionary_file_path\<close>, or the default when the key is
  missing.
\<close>

definition Dictionary_load :: "header \<Rightarrow> filesystem \<Rightarrow> string \<Rightarrow> error + dictionary" where
  "Dictionary_load h fs configFilePath =
     (case read_config fs configFilePath of
        Inl e \<Rightarrow> Inl e
      | Inr iniPropertyTree \<Rightarrow>
          let dictionaryFilePath =
                (case iniPropertyTree ''dictionary.dictionary_file_path'' of
                   Some path \<Rightarrow> path
                 | None \<Rightarrow> DEFAULT_DICTIONARY_PATH)
          in loadDictionary h (dictionary_files fs dictionaryFilePath) (new_dictionary h))"

text \<open>
  The constructor ends with \<open>shuffle()\<close>, so its outcome is either the error it throws
  or one of the shuffled states.
\<close>

definition Dictionary :: "header \<Rightarrow> filesystem \<Rightarrow> string \<Rightarrow> (error + dictionary) \<Rightarrow> bool" where
  "Dictionary h fs configFilePath outcome \<longleftrightarrow>
     (case Dictionary_load h fs configFilePath of
        Inl e \<Rightarrow> outcome = Inl e
      | Inr d \<Rightarrow> \<exists>d'. shuffle d d' \<and> outcome = Inr d')"

subsection \<open>The states of a loaded dictionary\<close>

text \<open>
  The states a \<open>Dictionary\<close> object goes through once \<open>loadDictionary\<close> has returned
  on the records \<open>content\<close>: any sequence of \<open>shuffle\<close> and of \<open>findPossible\<close> calls
  that return.
\<close>

inductive reachable :: "header \<Rightarrow> (str \<times> str) list option \<Rightarrow> dictionary \<Rightarrow> bool"
  for h :: header and content :: "(str \<times> str) list option" where
    loaded: "loadDictionary h content d0 = Inr d \<Longrightarrow> reachable h content d"
  | shuffled: "reachable h content d \<Longrightarrow> shuffle d d' \<Longrightarrow> reachable h content d'"
  | queried: "reachable h content d \<Longrightarrow> findPossible h pattern d = Inr (r, d') \<Longrightarrow>
       reachable h content d'"

section \<open>The board (src/crossword.cpp)\<close>

text \<open>
  The header \<open>crossword.h\<close> is not part of the sources. The members that
  \<open>loadWords\<close> uses are taken from their uses: \<open>N\<close> and \<open>M\<close> are read with
  \<open>fin.get\<close>, so they are of type \<open>char\<close>, and are modelled by the integers that the
  comparisons with \<open>int\<close> counters promote them to; the board is a vector of rows of
  unsigned bytes; a slot (\<open>position\<close>) has the flag \<open>hor\<close> and its cells \<open>letters\<close>,
  each a pointer to the cell of the board, modelled by the coordinates of the cell, and
  the row-major number of the cell.
\<close>

type_synonym uc = "8 word"

record position =
  hor :: int
  letters :: "((nat \<times> nat) \<times> int) list"

record crossword =
  N :: int
  M :: int
  board :: "uc list list"
  areas :: "position list"

text \<open>
  Modelled from the spec: \<open>isBox\<close> is declared in the absent header. A cell is blocked
  when "a predicate, a configurable classifier" of its byte says so: the classifier is
  the parameter \<open>box\<close>, and \<open>isBox(i, j)\<close> applies it to \<open>board[i][j]\<close>, an unchecked
  access to the vectors.
\<close>

definition isBox :: "(uc \<Rightarrow> bool) \<Rightarrow> crossword \<Rightarrow> nat \<Rightarrow> nat \<Rightarrow> error + bool" where
  "isBox box c i j =
     (if i < length (board c) \<and> j < length (board c ! i) then Inr (box (board c ! i ! j))
      else Inl OutOfBounds)"

text \<open>
  The loop \<open>for (; j < M && !isBox(i, j); ++j);\<close> of the first pass: the value of \<open>j\<close>
  when it ends.
\<close>

function scan_row :: "(uc \<Rightarrow> bool) \<Rightarrow> crossword \<Rightarrow> nat \<Rightarrow> nat \<Rightarrow> error + nat" where
  "scan_row box c i j =
     (if int j < M c then
        (case isBox box c i j of
           Inl e \<Rightarrow> Inl e
         | Inr b \<Rightarrow> if \<not> b then scan_row box c i (j + 1) else Inr j)
      else Inr j)"
  by pat_completeness auto
termination
  by (relation "measure (\<lambda>(box, c, i, j). nat (M c) - j)") auto

declare scan_row.simps [simp del]

text \<open>
  The loop over \<open>j\<close> of the first pass, in row \<open>i\<close>: the run that starts at \<open>j\<close> is
  scanned; when it has at most one cell the loop continues (after the \<open>++j\<close> of the
  \<open>for\<close>), and else a horizontal slot with the cells of the run is appended first.
\<close>

function row_slots ::
  "(uc \<Rightarrow> bool) \<Rightarrow> crossword \<Rightarrow> nat \<Rightarrow> nat \<Rightarrow> position list \<Rightarrow> error + position list" where
  "row_slots box c i j slots =
     (if int j < M c then
        (case scan_row box c i j of
           Inl e \<Rightarrow> Inl e
         | Inr j' \<Rightarrow>
             if int j' - int j \<le> 1 then row_slots box c i (j' + 1) slots
             else row_slots box c i (j' + 1)
                    (slots @ [\<lparr>hor = 1,
                       letters = map (\<lambda>start. ((i, start), int i * M c + int start)) [j ..< j']\<rparr>]))
      else Inr slots)"
  by pat_completeness auto
termination
proof (relation "measure (\<lambda>(box, c, i, j, slots). nat (M c) + 1 - j)")
  have ge: "j \<le> j'" if "scan_row box c i j = Inr j'" for box c i j j'
    using that
  proof (induction box c i j rule: scan_row.induct)
    case (1 box c i j)
    then show ?case
      by (subst (asm) (2) scan_row.simps) (force split: if_splits sum.splits)
  qed
  fix box :: "uc \<Rightarrow> bool" and c :: crossword and i j j' :: nat and slots :: "position list"
  assume "int j < M c" and "scan_row box c i j = Inr j'"
  with ge [of box c i j j']
  show "((box, c, i, j' + 1, slots), (box, c, i, j, slots))
      \<in> measure (\<lambda>(box, c, i, j, slots). nat (M c) + 1 - j)"
    "((box, c, i, j' + 1, slots @ [\<lparr>hor = 1,
         letters = map (\<lambda>start. ((i, start), int i * M c + int start)) [j ..< j']\<rparr>]),
       (box, c, i, j, slots))
      \<in> measure (\<lambda>(box, c, i, j, slots). nat (M c) + 1 - j)"
    by auto
qed simp

declare row_slots.simps [simp del]

text \<open>
  The loop over the rows.
\<close>

function all_rows ::
  "(uc \<Rightarrow> bool) \<Rightarrow> crossword \<Rightarrow> nat \<Rightarrow> position list \<Rightarrow> error + position list" where
  "all_rows box c i slots =
     (if int i < N c then
        (case row_slots box c i 0 slots of
           Inl e \<Rightarrow> Inl e
         | Inr slots' \<Rightarrow> all_rows box c (i + 1) slots')
      else Inr slots)"
  by pat_completeness auto
termination
  by (relation "measure (\<lambda>(box, c, i, slots). nat (N c) - i)") auto

declare all_rows.simps [simp del]

text \<open>
  The second pass, over the columns: the same three loops with the roles of \<open>i\<close> and
  \<open>j\<close> exchanged, \<open>hor = 0\<close> and the cells \<open>board[start][j]\<close> numbered \<open>start*M + j\<close>.
\<close>

function scan_col :: "(uc \<Rightarrow> bool) \<Rightarrow> crossword \<Rightarrow> nat \<Rightarrow> nat \<Rightarrow> error + nat" where
  "scan_col box c j i =
     (if int i < N c then
        (case isBox box c i j of
           Inl e \<Rightarrow> Inl e
         | Inr b \<Rightarrow> if \<not> b then scan_col box c j (i + 1) else Inr i)
      else Inr i)"
  by pat_completeness auto
termination
  by (relation "measure (\<lambda>(box, c, j, i). nat (N c) - i)") auto

declare scan_col.simps [simp del]

function col_slots ::
  "(uc \<Rightarrow> bool) \<Rightarrow> crossword \<Rightarrow> nat \<Rightarrow> nat \<Rightarrow> position list \<Rightarrow> error + position list" where
  "col_slots box c j i slots =
     (if int i < N c then
        (case scan_col box c j i of
           Inl e \<Rightarrow> Inl e
         | Inr i' \<Rightarrow>
             if int i' - int i \<le> 1 then col_slots box c j (i' + 1) slots
             else col_slots box c j (i' + 1)
                    (slots @ [\<lparr>hor = 0,
                       letters = map (\<lambda>start. ((start, j), int start * M c + int j)) [i ..< i']\<rparr>]))
      else Inr slots)"
  by pat_completeness auto
termination
proof (relation "measure (\<lambda>(box, c, j, i, slots). nat (N c) + 1 - i)")
  have ge: "i \<le> i'" if "scan_col box c j i = Inr i'" for box c j i i'
    using that
  proof (induction box c j i rule: scan_col.induct)
    case (1 box c j i)
    then show ?case
      by (subst (asm) (2) scan_col.simps) (force split: if_splits sum.splits)
  qed
  fix box :: "uc \<Rightarrow> bool" and c :: crossword and j i i' :: nat and slots :: "position list"
  assume "int i < N c" and "scan_col box c j i = Inr i'"
  with ge [of box c j i i']
  show "((box, c, j, i' + 1, slots), (box, c, j, i, slots))
      \<in> measure (\<lambda>(box, c, j, i, slots). nat (N c) + 1 - i)"
    "((box, c, j, i' + 1, slots @ [\<lparr>hor = 0,
         letters = map (\<lambda>start. ((start, j), int start * M c + int j)) [i ..< i']\<rparr>]),
       (box, c, j, i, slots))
      \<in> measure (\<lambda>(box, c, j, i, slots). nat (N c) + 1 - i)"
    by auto
qed simp

declare col_slots.simps [simp del]

function all_cols ::
  "(uc \<Rightarrow> bool) \<Rightarrow> crossword \<Rightarrow> nat \<Rightarrow> position list \<Rightarrow> error + position list" where
  "all_cols box c j slots =
     (if int j < M c then
        (case col_slots box c j 0 slots of
           Inl e \<Rightarrow> Inl e
         | Inr slots' \<Rightarrow> all_cols box c (j + 1) slots')
      else Inr slots)"
  by pat_completeness auto
termination
  by (relation "measure (\<lambda>(box, c, j, slots). nat (M c) - j)") auto

declare all_cols.simps [simp del]

text \<open>
  \<open>loadWords\<close>: \<open>areas\<close> is cleared, filled by the two passes and sorted. Modelled from
  the spec: the comparator \<open>position::sortHelp\<close> is in the absent header ("the exact
  comparator is an implementation choice"), so the sort is the parameter \<open>sort_areas\<close>,
  of which the statements below only assume that it rearranges the list.
\<close>

definition loadWords ::
  "(uc \<Rightarrow> bool) \<Rightarrow> (position list \<Rightarrow> position list) \<Rightarrow> crossword \<Rightarrow> error + crossword" where
  "loadWords box sort_areas c =
     (case all_rows box c 0 [] of
        Inl e \<Rightarrow> Inl e
      | Inr slots \<Rightarrow>
          (case all_cols box c 0 slots of
             Inl e \<Rightarrow> Inl e
           | Inr slots' \<Rightarrow> Inr (c\<lparr>areas := sort_areas slots'\<rparr>)))"

section \<open>Notions used by the statements and proofs\<close>

subsection \<open>Packed keys\<close>

text \<open>
  The 48-bit key made of six bytes, in the order in which the switch of \<open>getKey\<close>
  accumulates them; the byte that \<open>getKey(mask, word)\<close> and \<open>getKey(word)\<close> contribute at
  position \<open>k\<close>; and a mask whose bit \<open>k\<close> is \<open>c k\<close>.
\<close>

definition pack :: "byte \<Rightarrow> byte \<Rightarrow> byte \<Rightarrow> byte \<Rightarrow> byte \<Rightarrow> byte \<Rightarrow> 64 word" where
  "pack b0 b1 b2 b3 b4 b5 =
     (((((push_bit 40 (ucast b5) OR push_bit 32 (ucast b4)) OR push_bit 24 (ucast b3))
        OR push_bit 16 (ucast b2)) OR push_bit 8 (ucast b1)) OR push_bit 0 (ucast b0))"

definition sel :: "32 word \<Rightarrow> str \<Rightarrow> nat \<Rightarrow> byte" where
  "sel msk w k = (if k < length w \<and> drop_bit k msk AND 1 \<noteq> 0 then w ! k else 0)"

definition byt :: "str \<Rightarrow> nat \<Rightarrow> byte" where
  "byt w k = (if k < length w then w ! k else 0)"

definition mask_nat :: "(nat \<Rightarrow> bool) \<Rightarrow> nat" where
  "mask_nat c = (if c 0 then 1 else 0) + (if c 1 then 2 else 0) + (if c 2 then 4 else 0)
     + (if c 3 then 8 else 0) + (if c 4 then 16 else 0) + (if c 5 then 32 else 0)"

text \<open>
  A word fits a pattern in the index when, on the first six positions, every byte of
  the pattern is zero or the byte of the word.
\<close>

definition fits :: "str \<Rightarrow> str \<Rightarrow> bool" where
  "fits pattern w \<longleftrightarrow> (\<forall>k < min (length pattern) 6. pattern ! k = 0 \<or> pattern ! k = w ! k)"

subsection \<open>The content of the index\<close>

text \<open>
  \<open>ids_of w idx key\<close> is what \<open>addToFastSearch w idx\<close> appends to the bucket of \<open>key\<close>:
  one copy of \<open>idx\<close> for each of the 64 masks whose key is \<open>key\<close>.
  \<open>registered ws L key\<close> is the bucket of \<open>key\<close> for length \<open>L\<close> after the words \<open>ws\<close>
  have been added in order.
\<close>

definition ids_of :: "str \<Rightarrow> 16 word \<Rightarrow> 64 word \<Rightarrow> bucket" where
  "ids_of w idx key = map (\<lambda>_. idx) (filter (\<lambda>m. getKey_mask (of_nat m) w = key) [0 ..< 64])"

definition registered :: "str list \<Rightarrow> nat \<Rightarrow> 64 word \<Rightarrow> bucket" where
  "registered ws L key =
     concat (map (\<lambda>i. if length (ws ! i) = L then ids_of (ws ! i) (of_nat i) key else [])
       [0 ..< length ws])"

text \<open>
  The verification of the long-pattern branch (a contender shorter than the pattern
  is read at its terminating zero), and the list of identifiers that \<open>findPossible\<close>
  computes on a cache miss from the buckets as they were loaded.
\<close>

definition agrees :: "header \<Rightarrow> str \<Rightarrow> str \<Rightarrow> bool" where
  "agrees h pattern w \<longleftrightarrow>
     (\<forall>i<length pattern. pattern ! i \<noteq> ANY_CHAR h \<longrightarrow>
        pattern ! i = (if i < length w then w ! i else 0))"

definition answer :: "header \<Rightarrow> str list \<Rightarrow> str \<Rightarrow> bucket" where
  "answer h ws pattern =
     (if length pattern \<le> 6 then registered ws (length pattern) (getKey pattern)
      else filter (\<lambda>c. agrees h pattern (ws ! unat c))
             (registered ws (length pattern) (getKey pattern)))"

text \<open>
  Invariants: the index right after loading (\<open>index_exact\<close>); the index up to the
  order inside the buckets (\<open>index_ok\<close>); the cache holds patterns inside the array
  only, each with a rearrangement of its answer (\<open>cache_ok\<close>).
\<close>

definition index_exact :: "header \<Rightarrow> dictionary \<Rightarrow> bool" where
  "index_exact h d \<longleftrightarrow>
     length (fastSearch d) = LONGEST_WORD h \<and>
     (\<forall>L<LONGEST_WORD h. \<forall>key. bucket_of (fastSearch d ! L) key = registered (allWords d) L key) \<and>
     (\<forall>w\<in>set (allWords d). length w < LONGEST_WORD h)"

definition index_ok :: "header \<Rightarrow> dictionary \<Rightarrow> bool" where
  "index_ok h d \<longleftrightarrow>
     length (fastSearch d) = LONGEST_WORD h \<and>
     (\<forall>L<LONGEST_WORD h. \<forall>key.
        mset (bucket_of (fastSearch d ! L) key) = mset (registered (allWords d) L key))"

definition cache_ok :: "header \<Rightarrow> dictionary \<Rightarrow> bool" where
  "cache_ok h d \<longleftrightarrow>
     (\<forall>p xs. cacheSearchMap d p = Some xs \<longrightarrow>
        length p < LONGEST_WORD h \<and> mset xs = mset (answer h (allWords d) p))"

definition consistent :: "header \<Rightarrow> dictionary \<Rightarrow> bool" where
  "consistent h d \<longleftrightarrow> index_ok h d \<and> cache_ok h d"

text \<open>
  The effect of \<open>_fastSearch[pattern.size()][key]\<close> on the state, one iteration of the
  loading loop, and the canonical words of a file.
\<close>

definition touch :: "str \<Rightarrow> dictionary \<Rightarrow> dictionary" where
  "touch p d = d\<lparr>fastSearch := (fastSearch d)[length p :=
     (fastSearch d ! length p)(getKey p \<mapsto> bucket_of (fastSearch d ! length p) (getKey p))]\<rparr>"


definition words_of :: "header \<Rightarrow> (str \<times> str) list option \<Rightarrow> str list" where
  "words_of h content = (case content of None \<Rightarrow> [] | Some records \<Rightarrow> map (\<lambda>r. canonical h (fst r)) records)"

subsection \<open>A small dictionary\<close>

text \<open>
  Three records in the Windows-1251 code page: a capitalised and an upper-case
  spelling of the same word (the second with an exclamation mark), and a second word.
  Two dictionaries of 65537 records: 65536 records of one word of 2 letters, then a
  word of 3 letters; and 65536 records of one word of 7 letters, then a word that
  differs from it in the last letter. \<open>reverse_buckets\<close> is one of the rearrangements that
  \<open>shuffle\<close> may produce.
\<close>

definition example_header :: header where
  "example_header = \<lparr>LONGEST_WORD = 8, ANY_CHAR = 0, CYRILLIC_A = 224\<rparr>"

definition example_file :: "(str \<times> str) list option" where
  "example_file = Some [([202, 238, 242], [49]), ([202, 200, 210], [50]), ([202, 206, 210, 33], [51])]"

definition example_dictionary :: dictionary where
  "example_dictionary = projr (loadDictionary example_header example_file (new_dictionary example_header))"

definition example_filesystem :: filesystem where
  "example_filesystem = \<lparr>
     ini_files = (\<lambda>path. if path = DEFAULT_CONFIG_PATH
        then Parsed [''dictionary.dictionary_file_path'' \<mapsto> ''words.txt''] else Missing),
     dictionary_files = (\<lambda>path. if path = ''words.txt'' then example_file else None)\<rparr>"

definition wrap_file :: "(str \<times> str) list option" where
  "wrap_file = Some (replicate 65536 ([192, 192], []) @ [([192, 192, 192], [])])"

definition wrap_dictionary :: dictionary where
  "wrap_dictionary = projr (loadDictionary example_header wrap_file (new_dictionary example_header))"

definition big_file :: "(str \<times> str) list option" where
  "big_file = Some (replicate 65536 ([192, 192, 192, 192, 192, 192, 193], [])
     @ [([192, 192, 192, 192, 192, 192, 194], [])])"

definition big_dictionary :: dictionary where
  "big_dictionary = projr (loadDictionary example_header big_file (new_dictionary example_header))"

definition reverse_buckets :: "dictionary \<Rightarrow> dictionary" where
  "reverse_buckets d = d\<lparr>fastSearch := map (\<lambda>m key. map_option rev (m key)) (fastSearch d),
     cacheSearchMap := (\<lambda>pattern. map_option rev (cacheSearchMap d pattern))\<rparr>"

subsection \<open>Runs and slots of a board\<close>

text \<open>
  A board of \<open>N\<close> rows of \<open>M\<close> cells, as \<open>load\<close> builds it.
\<close>

definition well_formed :: "crossword \<Rightarrow> bool" where
  "well_formed c \<longleftrightarrow>
     int (length (board c)) = N c \<and> (\<forall>row\<in>set (board c). int (length row) = M c)"

text \<open>
  In a line of \<open>n\<close> cells, the cells from \<open>a\<close> up to but excluding \<open>b\<close> are a maximal run
  of open cells: all open, and bounded on each side by the edge or a blocked cell. The
  maximal runs of at least 2 cells of row \<open>i\<close> and of column \<open>j\<close>, and the slots made of
  the cells of a run.
\<close>

definition maximal_run :: "(nat \<Rightarrow> bool) \<Rightarrow> nat \<Rightarrow> nat \<Rightarrow> nat \<Rightarrow> bool" where
  "maximal_run blocked n a b \<longleftrightarrow>
     a < b \<and> b \<le> n \<and> (\<forall>k. a \<le> k \<and> k < b \<longrightarrow> \<not> blocked k) \<and>
     (a = 0 \<or> blocked (a - 1)) \<and> (b = n \<or> blocked b)"

definition h_runs :: "(uc \<Rightarrow> bool) \<Rightarrow> crossword \<Rightarrow> nat \<Rightarrow> (nat \<times> nat) set" where
  "h_runs box c i =
     {(a, b). maximal_run (\<lambda>j. box (board c ! i ! j)) (nat (M c)) a b \<and> 2 \<le> b - a}"

definition v_runs :: "(uc \<Rightarrow> bool) \<Rightarrow> crossword \<Rightarrow> nat \<Rightarrow> (nat \<times> nat) set" where
  "v_runs box c j =
     {(a, b). maximal_run (\<lambda>i. box (board c ! i ! j)) (nat (N c)) a b \<and> 2 \<le> b - a}"

definition h_slot :: "crossword \<Rightarrow> nat \<Rightarrow> nat \<times> nat \<Rightarrow> position" where
  "h_slot c i r = \<lparr>hor = 1,
     letters = map (\<lambda>start. ((i, start), int i * M c + int start)) [fst r ..< snd r]\<rparr>"

definition v_slot :: "crossword \<Rightarrow> nat \<Rightarrow> nat \<times> nat \<Rightarrow> position" where
  "v_slot c j r = \<lparr>hor = 0,
     letters = map (\<lambda>start. ((start, j), int start * M c + int j)) [fst r ..< snd r]\<rparr>"

text \<open>
  The scan and the list of runs of a line given by its blocked cells, used in the
  proofs to treat rows and columns at once.
\<close>

function run_end :: "(nat \<Rightarrow> bool) \<Rightarrow> nat \<Rightarrow> nat \<Rightarrow> nat" where
  "run_end blocked n j = (if j < n \<and> \<not> blocked j then run_end blocked n (j + 1) else j)"
  by pat_completeness auto
termination
  by (relation "measure (\<lambda>(blocked, n, j). n - j)") auto

declare run_end.simps [simp del]

function runs_from :: "(nat \<Rightarrow> bool) \<Rightarrow> nat \<Rightarrow> nat \<Rightarrow> (nat \<times> nat) list" where
  "runs_from blocked n j =
     (if j < n then
        (if run_end blocked n j - j \<le> 1 then [] else [(j, run_end blocked n j)])
          @ runs_from blocked n (run_end blocked n j + 1)
      else [])"
  by pat_completeness auto
termination
proof (relation "measure (\<lambda>(blocked, n, j). n + 1 - j)")
  have ge: "j \<le> run_end blocked n j" for blocked n j
  proof (induction blocked n j rule: run_end.induct)
    case (1 blocked n j)
    then show ?case
      by (subst run_end.simps) (auto split: if_splits)
  qed
  fix blocked :: "nat \<Rightarrow> bool" and n j :: nat
  assume "j < n"
  with ge [of j blocked n]
  show "((blocked, n, run_end blocked n j + 1), (blocked, n, j)) \<in> measure (\<lambda>(blocked, n, j). n + 1 - j)"
    by auto
qed simp

declare runs_from.simps [simp del]

text \<open>Two boards: a row of three open cells, and a 3 by 3 board with two blocked cells.\<close>

definition board_1x3 :: crossword where
  "board_1x3 = \<lparr>N = 1, M = 3, board = [[202, 206, 210]], areas = []\<rparr>"

definition board_3x3 :: crossword where
  "board_3x3 = \<lparr>N = 3, M = 3, board = [[0, 206, 210], [202, 206, 210], [202, 0, 210]], areas = []\<rparr>"

section \<open>Proofs\<close>

subsection \<open>Packed keys\<close>

lemma pack_byte0: "ucast (pack b0 b1 b2 b3 b4 b5) = b0"
  by (rule bit_word_eqI) (auto simp: pack_def bit_simps dest: bit_imp_le_length)

lemma pack_byte1: "ucast (drop_bit 8 (pack b0 b1 b2 b3 b4 b5)) = b1"
  by (rule bit_word_eqI) (auto simp: pack_def bit_simps dest: bit_imp_le_length)

lemma pack_byte2: "ucast (drop_bit 16 (pack b0 b1 b2 b3 b4 b5)) = b2"
  by (rule bit_word_eqI) (auto simp: pack_def bit_simps dest: bit_imp_le_length)

lemma pack_byte3: "ucast (drop_bit 24 (pack b0 b1 b2 b3 b4 b5)) = b3"
  by (rule bit_word_eqI) (auto simp: pack_def bit_simps dest: bit_imp_le_length)

lemma pack_byte4: "ucast (drop_bit 32 (pack b0 b1 b2 b3 b4 b5)) = b4"
  by (rule bit_word_eqI) (auto simp: pack_def bit_simps dest: bit_imp_le_length)

lemma pack_byte5: "ucast (drop_bit 40 (pack b0 b1 b2 b3 b4 b5)) = b5"
  by (rule bit_word_eqI) (auto simp: pack_def bit_simps dest: bit_imp_le_length)

lemma pack_eq_iff:
  "pack a0 a1 a2 a3 a4 a5 = pack b0 b1 b2 b3 b4 b5 \<longleftrightarrow>
     a0 = b0 \<and> a1 = b1 \<and> a2 = b2 \<and> a3 = b3 \<and> a4 = b4 \<and> a5 = b5"
proof
  assume eq: "pack a0 a1 a2 a3 a4 a5 = pack b0 b1 b2 b3 b4 b5"
  have "a0 = b0" using pack_byte0 [of a0 a1 a2 a3 a4 a5] pack_byte0 [of b0 b1 b2 b3 b4 b5] eq by simp
  moreover have "a1 = b1" using pack_byte1 [of a0 a1 a2 a3 a4 a5] pack_byte1 [of b0 b1 b2 b3 b4 b5] eq by simp
  moreover have "a2 = b2" using pack_byte2 [of a0 a1 a2 a3 a4 a5] pack_byte2 [of b0 b1 b2 b3 b4 b5] eq by simp
  moreover have "a3 = b3" using pack_byte3 [of a0 a1 a2 a3 a4 a5] pack_byte3 [of b0 b1 b2 b3 b4 b5] eq by simp
  moreover have "a4 = b4" using pack_byte4 [of a0 a1 a2 a3 a4 a5] pack_byte4 [of b0 b1 b2 b3 b4 b5] eq by simp
  moreover have "a5 = b5" using pack_byte5 [of a0 a1 a2 a3 a4 a5] pack_byte5 [of b0 b1 b2 b3 b4 b5] eq by simp
  ultimately show "a0 = b0 \<and> a1 = b1 \<and> a2 = b2 \<and> a3 = b3 \<and> a4 = b4 \<and> a5 = b5" by simp
qed simp

lemma key_case_sel:
  "k < length w \<Longrightarrow> key_case msk w k key = key OR push_bit (8 * k) (ucast (sel msk w k))"
  by (simp add: key_case_def sel_def)

lemma sel_beyond: "length w \<le> k \<Longrightarrow> sel msk w k = 0"
  by (simp add: sel_def)

lemma key_byte_byt:
  "k < length w \<Longrightarrow> key_byte w k key = key OR push_bit (8 * k) (ucast (byt w k))"
  by (simp add: key_byte_def byt_def)

lemma byt_beyond: "length w \<le> k \<Longrightarrow> byt w k = 0"
  by (simp add: byt_def)

lemma length_cases [case_names 0 1 2 3 4 5 6]:
  assumes "length w = 0 \<Longrightarrow> P" "length w = 1 \<Longrightarrow> P" "length w = 2 \<Longrightarrow> P" "length w = 3 \<Longrightarrow> P"
    "length w = 4 \<Longrightarrow> P" "length w = 5 \<Longrightarrow> P" "6 \<le> length w \<Longrightarrow> P"
  shows P
proof -
  have "length w = 0 \<or> length w = 1 \<or> length w = 2 \<or> length w = 3 \<or> length w = 4
      \<or> length w = 5 \<or> 6 \<le> length w"
    by arith
  with assms show P by blast
qed

lemma getKey_mask_pack:
  "getKey_mask msk w =
     pack (sel msk w 0) (sel msk w 1) (sel msk w 2) (sel msk w 3) (sel msk w 4) (sel msk w 5)"
proof (cases w rule: length_cases)
  case 6
  then have "0 < length w" "1 < length w" "2 < length w" "3 < length w" "4 < length w" "5 < length w"
    by auto
  with 6 show ?thesis
    by (simp add: getKey_mask_def key_case_sel pack_def del: length_greater_0_conv)
qed (simp_all add: getKey_mask_def key_case_sel sel_beyond pack_def)

lemma getKey_pack:
  "getKey w = pack (byt w 0) (byt w 1) (byt w 2) (byt w 3) (byt w 4) (byt w 5)"
proof (cases w rule: length_cases)
  case 6
  then have "0 < length w" "1 < length w" "2 < length w" "3 < length w" "4 < length w" "5 < length w"
    by auto
  with 6 show ?thesis
    by (simp add: getKey_def key_byte_byt pack_def del: length_greater_0_conv)
qed (simp_all add: getKey_def key_byte_byt byt_beyond pack_def)

lemma mask_nat_less: "mask_nat c < 64"
  by (simp add: mask_nat_def)

lemma mask_nat_bit0: "(drop_bit 0 (of_nat (mask_nat c) :: 32 word) AND 1 \<noteq> 0) = c 0"
  by (cases "c 0"; cases "c 1"; cases "c 2"; cases "c 3"; cases "c 4"; cases "c 5")
    (simp_all add: mask_nat_def)

lemma mask_nat_bit1: "(drop_bit 1 (of_nat (mask_nat c) :: 32 word) AND 1 \<noteq> 0) = c 1"
  by (cases "c 0"; cases "c 1"; cases "c 2"; cases "c 3"; cases "c 4"; cases "c 5")
    (simp_all add: mask_nat_def)

lemma mask_nat_bit2: "(drop_bit 2 (of_nat (mask_nat c) :: 32 word) AND 1 \<noteq> 0) = c 2"
  by (cases "c 0"; cases "c 1"; cases "c 2"; cases "c 3"; cases "c 4"; cases "c 5")
    (simp_all add: mask_nat_def)

lemma mask_nat_bit3: "(drop_bit 3 (of_nat (mask_nat c) :: 32 word) AND 1 \<noteq> 0) = c 3"
  by (cases "c 0"; cases "c 1"; cases "c 2"; cases "c 3"; cases "c 4"; cases "c 5")
    (simp_all add: mask_nat_def)

lemma mask_nat_bit4: "(drop_bit 4 (of_nat (mask_nat c) :: 32 word) AND 1 \<noteq> 0) = c 4"
  by (cases "c 0"; cases "c 1"; cases "c 2"; cases "c 3"; cases "c 4"; cases "c 5")
    (simp_all add: mask_nat_def)

lemma mask_nat_bit5: "(drop_bit 5 (of_nat (mask_nat c) :: 32 word) AND 1 \<noteq> 0) = c 5"
  by (cases "c 0"; cases "c 1"; cases "c 2"; cases "c 3"; cases "c 4"; cases "c 5")
    (simp_all add: mask_nat_def)

lemma sel_mask_nat:
  "k < 6 \<Longrightarrow> sel (of_nat (mask_nat c)) w k = (if k < length w \<and> c k then w ! k else 0)"
proof -
  assume "k < 6"
  then consider "k = 0" | "k = 1" | "k = 2" | "k = 3" | "k = 4" | "k = 5" by arith
  then show ?thesis
    by cases (simp_all only: sel_def mask_nat_bit0 mask_nat_bit1 mask_nat_bit2 mask_nat_bit3
          mask_nat_bit4 mask_nat_bit5)
qed

lemma all_less_6: "(\<forall>k<6. P k) \<longleftrightarrow> P 0 \<and> P 1 \<and> P 2 \<and> P 3 \<and> P 4 \<and> P (5::nat)"
proof
  assume r: "P 0 \<and> P 1 \<and> P 2 \<and> P 3 \<and> P 4 \<and> P 5"
  show "\<forall>k<6. P k"
  proof (intro allI impI)
    fix k :: nat assume "k < 6"
    then consider "k = 0" | "k = 1" | "k = 2" | "k = 3" | "k = 4" | "k = 5" by arith
    then show "P k" using r by cases simp_all
  qed
qed simp

lemma key_eq_iff:
  "getKey_mask msk w = getKey p \<longleftrightarrow> (\<forall>k<6. sel msk w k = byt p k)"
  by (simp only: getKey_mask_pack getKey_pack pack_eq_iff all_less_6)

lemma key_match_iff:
  assumes "length w = length p"
  shows "(\<exists>m<64. getKey_mask (of_nat m) w = getKey p) \<longleftrightarrow> fits p w"
proof
  assume "\<exists>m<64. getKey_mask (of_nat m) w = getKey p"
  then obtain m where m: "\<forall>k<6. sel (of_nat m) w k = byt p k"
    by (auto simp: key_eq_iff)
  show "fits p w"
    unfolding fits_def
  proof (intro allI impI)
    fix k assume k: "k < min (length p) 6"
    with m have "sel (of_nat m) w k = byt p k" by simp
    with k assms show "p ! k = 0 \<or> p ! k = w ! k"
      by (auto simp: sel_def byt_def split: if_splits)
  qed
next
  assume f: "fits p w"
  let ?c = "\<lambda>k. byt p k \<noteq> 0"
  have "\<forall>k<6. sel (of_nat (mask_nat ?c)) w k = byt p k"
  proof (intro allI impI)
    fix k :: nat assume k: "k < 6"
    show "sel (of_nat (mask_nat ?c)) w k = byt p k"
    proof (cases "k < length p")
      case True
      with k f have "p ! k = 0 \<or> p ! k = w ! k" by (simp add: fits_def)
      with True k assms show ?thesis by (auto simp: sel_mask_nat byt_def)
    next
      case False
      with k assms show ?thesis by (simp add: sel_mask_nat byt_def)
    qed
  qed
  then have "getKey_mask (of_nat (mask_nat ?c)) w = getKey p"
    by (simp only: key_eq_iff)
  with mask_nat_less [of ?c] show "\<exists>m<64. getKey_mask (of_nat m) w = getKey p" by blast
qed

subsection \<open>Loading establishes the index\<close>

lemma registered_Nil: "registered [] L key = []"
  by (simp add: registered_def)

lemma registered_snoc:
  "registered (ws @ [w]) L key =
     registered ws L key @ (if length w = L then ids_of w (of_nat (length ws)) key else [])"
proof -
  have "map (\<lambda>i. if length ((ws @ [w]) ! i) = L then ids_of ((ws @ [w]) ! i) (of_nat i) key else [])
          [0 ..< length ws]
      = map (\<lambda>i. if length (ws ! i) = L then ids_of (ws ! i) (of_nat i) key else []) [0 ..< length ws]"
    by (rule map_cong) (simp_all add: nth_append)
  then show ?thesis
    by (simp add: registered_def del: map_eq_conv)
qed

lemma bucket_of_push_index:
  "bucket_of (push_index w idx m mk) key =
     bucket_of m key @ (if getKey_mask (of_nat mk) w = key then [idx] else [])"
  by (simp add: push_index_def bucket_of_def Let_def)

lemma bucket_of_foldl_push_index:
  "bucket_of (foldl (push_index w idx) m ms) key =
     bucket_of m key @ map (\<lambda>_. idx) (filter (\<lambda>mk. getKey_mask (of_nat mk) w = key) ms)"
  by (induction ms arbitrary: m) (simp_all add: bucket_of_push_index)

lemma addToFastSearch_Inr:
  "addToFastSearch w idx d = Inr d' \<longleftrightarrow>
     length w < length (fastSearch d) \<and>
     d' = d\<lparr>fastSearch := (fastSearch d)[length w :=
            foldl (push_index w idx) (fastSearch d ! length w) [0 ..< 64]]\<rparr>"
  by (auto simp: addToFastSearch_def)

lemma bucket_after_add:
  assumes "L < length fs"
  shows "bucket_of (fs[length w := foldl (push_index w idx) (fs ! length w) [0 ..< 64]] ! L) key =
     bucket_of (fs ! L) key @ (if length w = L then ids_of w idx key else [])"
  using assms by (simp add: nth_list_update bucket_of_foldl_push_index ids_of_def)

lemma load_records_index:
  assumes "load_records h records d = Inr d'" and "index_exact h d"
  shows "index_exact h d' \<and> cacheSearchMap d' = cacheSearchMap d \<and>
     allWords d' = allWords d @ map (\<lambda>r. canonical h (fst r)) records"
  using assms
proof (induction records arbitrary: d)
  case Nil
  then show ?case by simp
next
  case (Cons r records)
  obtain rawWord rawExplanation where r: "r = (rawWord, rawExplanation)" by (cases r)
  let ?w = "canonical h rawWord"
  let ?d1 = "d\<lparr>dirtyDict := emplace ?w (dosToWinCode h rawWord) (dirtyDict d),
               explanationDict := emplace ?w (dosToWinCode h rawExplanation) (explanationDict d)\<rparr>"
  from Cons.prems(1) obtain d2 where
    add: "addToFastSearch ?w (of_nat (length (allWords d))) ?d1 = Inr d2" and
    rest: "load_records h records (d2\<lparr>allWords := allWords d2 @ [?w]\<rparr>) = Inr d'"
    by (auto simp: r canonical_def Let_def split: sum.splits)
  let ?d3 = "d2\<lparr>allWords := allWords d2 @ [?w]\<rparr>"
  from add have len: "length ?w < length (fastSearch d)"
    and d2: "d2 = ?d1\<lparr>fastSearch := (fastSearch d)[length ?w :=
            foldl (push_index ?w (of_nat (length (allWords d)))) (fastSearch d ! length ?w) [0 ..< 64]]\<rparr>"
    by (simp_all add: addToFastSearch_Inr)
  from Cons.prems(2) have ex: "length (fastSearch d) = LONGEST_WORD h"
    "\<And>L key. L < LONGEST_WORD h \<Longrightarrow> bucket_of (fastSearch d ! L) key = registered (allWords d) L key"
    "\<And>w. w \<in> set (allWords d) \<Longrightarrow> length w < LONGEST_WORD h"
    by (simp_all add: index_exact_def)
  have "index_exact h ?d3"
    unfolding index_exact_def
  proof (intro conjI allI impI ballI)
    show "length (fastSearch ?d3) = LONGEST_WORD h" by (simp add: d2 ex(1))
  next
    fix L key assume L: "L < LONGEST_WORD h"
    then show "bucket_of (fastSearch ?d3 ! L) key = registered (allWords ?d3) L key"
      by (simp add: d2 bucket_after_add ex(1) ex(2) registered_snoc)
  next
    fix w assume "w \<in> set (allWords ?d3)"
    then show "length w < LONGEST_WORD h"
      using len ex(1) ex(3) by (auto simp: d2)
  qed
  from Cons.IH [OF rest this] show ?case
    by (simp add: d2 r)
qed

lemma index_exact_reset: "index_exact h (reset h d)"
  by (simp add: index_exact_def reset_def bucket_of_def registered_Nil)

lemma load_records_total:
  assumes "length (fastSearch d) = LONGEST_WORD h"
    and "\<forall>r\<in>set records. length (canonical h (fst r)) < LONGEST_WORD h"
  shows "\<exists>d'. load_records h records d = Inr d'"
  using assms
proof (induction records arbitrary: d)
  case Nil
  then show ?case by simp
next
  case (Cons r records)
  obtain rawWord rawExplanation where r: "r = (rawWord, rawExplanation)" by (cases r)
  show ?case
    using Cons.prems Cons.IH
    by (simp add: r Let_def addToFastSearch_def canonical_def)
qed

subsection \<open>Queries and shuffles keep the index and the cache\<close>

lemma isPossible_Inr:
  assumes "set filled \<subseteq> {..<length p}" and "isPossible p w filled = Inr b"
  shows "b = (\<forall>i\<in>set filled. p ! i = (if i < length w then w ! i else 0))"
  using assms
proof (induction filled)
  case Nil
  then show ?case by simp
next
  case (Cons i filled)
  then have i: "i < length p" by simp
  from Cons.prems(2) i obtain c where c: "char_at w i = Inr c"
    by (cases "char_at w i") (simp_all add: char_at_def)
  then have c_eq: "c = (if i < length w then w ! i else 0)"
    by (auto simp: char_at_def split: if_splits)
  show ?case
  proof (cases "p ! i = c")
    case True
    with Cons.prems(2) i c have "isPossible p w filled = Inr b" by (simp add: char_at_def)
    with Cons.IH Cons.prems(1) True c_eq show ?thesis by simp
  next
    case False
    with Cons.prems(2) i c have "b = False" by (simp add: char_at_def)
    with False c_eq show ?thesis by auto
  qed
qed

lemma isPossible_total:
  assumes "set filled \<subseteq> {..<length p}" and "\<forall>i\<in>set filled. i \<le> length w"
  shows "\<exists>b. isPossible p w filled = Inr b"
  using assms by (induction filled) (auto simp: char_at_def)

lemma filled_agrees:
  "(\<forall>i\<in>set (filter (\<lambda>i. p ! i \<noteq> ANY_CHAR h) [0 ..< length p]).
      p ! i = (if i < length w then w ! i else 0)) = agrees h p w"
  by (auto simp: agrees_def)

lemma verify_contenders_Inr:
  assumes "verify_contenders d p (filter (\<lambda>i. p ! i \<noteq> ANY_CHAR h) [0 ..< length p]) xs acc = Inr r"
  shows "r = acc @ filter (\<lambda>c. agrees h p (allWords d ! unat c)) xs"
  using assms
proof (induction xs arbitrary: acc)
  case Nil
  then show ?case by simp
next
  case (Cons c xs)
  let ?filled = "filter (\<lambda>i. p ! i \<noteq> ANY_CHAR h) [0 ..< length p]"
  from Cons.prems have w: "getFromIndex d c = Inr (allWords d ! unat c)"
    by (auto simp: getFromIndex_def split: if_splits)
  with Cons.prems obtain ok where ok: "isPossible p (allWords d ! unat c) ?filled = Inr ok"
    by (cases "isPossible p (allWords d ! unat c) ?filled") simp_all
  have "set ?filled \<subseteq> {..<length p}" by auto
  from isPossible_Inr [OF this ok] have "ok = agrees h p (allWords d ! unat c)"
    by (simp only: filled_agrees)
  with Cons.prems w ok Cons.IH [of "if ok then acc @ [c] else acc"] show ?case
    by (cases ok) simp_all
qed

lemma verify_contenders_total:
  assumes "\<forall>c\<in>set xs. unat c < length (allWords d) \<and>
     (\<forall>i<length p. p ! i \<noteq> ANY_CHAR h \<longrightarrow> i \<le> length (allWords d ! unat c))"
  shows "\<exists>r. verify_contenders d p (filter (\<lambda>i. p ! i \<noteq> ANY_CHAR h) [0 ..< length p]) xs acc = Inr r"
  using assms
proof (induction xs arbitrary: acc)
  case Nil
  then show ?case by simp
next
  case (Cons c xs)
  let ?filled = "filter (\<lambda>i. p ! i \<noteq> ANY_CHAR h) [0 ..< length p]"
  from Cons.prems have w: "getFromIndex d c = Inr (allWords d ! unat c)"
    by (simp add: getFromIndex_def)
  have "\<exists>b. isPossible p (allWords d ! unat c) ?filled = Inr b"
    using Cons.prems by (intro isPossible_total) auto
  then obtain ok where ok: "isPossible p (allWords d ! unat c) ?filled = Inr ok" by blast
  from Cons.IH [of "if ok then acc @ [c] else acc"] Cons.prems w ok show ?case by simp
qed

lemma set_ids_of:
  "set (ids_of w idx key) = (if \<exists>m<64. getKey_mask (of_nat m) w = key then {idx} else {})"
  by (auto simp: ids_of_def)

lemma set_registered:
  "set (registered ws L key) =
     {of_nat i | i. i < length ws \<and> length (ws ! i) = L \<and> (\<exists>m<64. getKey_mask (of_nat m) (ws ! i) = key)}"
  by (auto simp: registered_def set_ids_of split: if_splits)

lemma registered_in_table:
  assumes "c \<in> set (registered ws L key)"
  shows "unat c < length ws"
proof -
  from assms obtain i where i: "c = of_nat i" "i < length ws"
    by (auto simp: set_registered)
  have "unat (of_nat i :: 16 word) \<le> i" by (simp add: unat_of_nat)
  with i show ?thesis by simp
qed

lemma registered_resolves:
  assumes "c \<in> set (registered ws L key)" and "length ws \<le> 65536"
  shows "unat c < length ws \<and> length (ws ! unat c) = L"
proof -
  from assms(1) obtain i where i: "c = of_nat i" "i < length ws" "length (ws ! i) = L"
    by (auto simp: set_registered)
  with assms(2) have "unat c = i"
    by (simp add: unat_of_nat)
  with i show ?thesis by simp
qed

lemma touch_simps [simp]:
  "allWords (touch p d) = allWords d"
  "cacheSearchMap (touch p d) = cacheSearchMap d"
  "dirtyDict (touch p d) = dirtyDict d"
  "explanationDict (touch p d) = explanationDict d"
  "length (fastSearch (touch p d)) = length (fastSearch d)"
  by (simp_all add: touch_def)

lemma bucket_of_touch [simp]:
  "bucket_of (fastSearch (touch p d) ! L) key = bucket_of (fastSearch d ! L) key"
proof (cases "length p < length (fastSearch d)")
  case True
  then show ?thesis
    by (cases "L = length p") (simp_all add: touch_def bucket_of_def)
next
  case False
  then show ?thesis by (simp add: touch_def list_update_beyond not_less)
qed

lemma findPossible_hit:
  "cacheSearchMap d p = Some xs \<Longrightarrow> findPossible h p d = Inr (xs, d)"
  by (simp add: findPossible_def)

lemma findPossible_miss_range:
  "cacheSearchMap d p = None \<Longrightarrow> \<not> length p < length (fastSearch d) \<Longrightarrow>
     findPossible h p d = Inl OutOfBounds"
  by (simp add: findPossible_def)

lemma findPossible_miss_short:
  "cacheSearchMap d p = None \<Longrightarrow> length p < length (fastSearch d) \<Longrightarrow> length p \<le> 6 \<Longrightarrow>
     findPossible h p d =
       Inr (bucket_of (fastSearch d ! length p) (getKey p),
            (touch p d)\<lparr>cacheSearchMap := (cacheSearchMap d)(p \<mapsto>
               bucket_of (fastSearch d ! length p) (getKey p))\<rparr>)"
  by (simp add: findPossible_def touch_def Let_def)

lemma findPossible_miss_long:
  "cacheSearchMap d p = None \<Longrightarrow> length p < length (fastSearch d) \<Longrightarrow> \<not> length p \<le> 6 \<Longrightarrow>
     findPossible h p d =
       (case verify_contenders (touch p d) p (filter (\<lambda>i. p ! i \<noteq> ANY_CHAR h) [0 ..< length p])
               (bucket_of (fastSearch d ! length p) (getKey p)) [] of
          Inl e \<Rightarrow> Inl e
        | Inr r \<Rightarrow> Inr (r, (touch p d)\<lparr>cacheSearchMap := (cacheSearchMap d)(p \<mapsto> r)\<rparr>))"
  unfolding touch_def by (simp add: findPossible_def Let_def split: sum.split)

lemma set_bucket_registered:
  assumes "index_ok h d" and "L < LONGEST_WORD h"
  shows "set (bucket_of (fastSearch d ! L) key) = set (registered (allWords d) L key)"
proof -
  from assms have "mset (bucket_of (fastSearch d ! L) key) = mset (registered (allWords d) L key)"
    by (simp add: index_ok_def)
  then show ?thesis by (rule mset_eq_setD)
qed

lemma mset_answer_bucket:
  assumes "index_ok h d" and "length p < LONGEST_WORD h"
  shows "length p \<le> 6 \<Longrightarrow>
           mset (bucket_of (fastSearch d ! length p) (getKey p)) = mset (answer h (allWords d) p)"
    and "\<not> length p \<le> 6 \<Longrightarrow>
           mset (filter (\<lambda>c. agrees h p (allWords d ! unat c))
                  (bucket_of (fastSearch d ! length p) (getKey p)))
           = mset (answer h (allWords d) p)"
  using assms by (simp_all add: index_ok_def answer_def)

text \<open>What a call that returns has computed, and that it keeps the invariants.\<close>

lemma findPossible_result:
  assumes "consistent h d" and "findPossible h p d = Inr (r, d')"
  shows "mset r = mset (answer h (allWords d) p) \<and> consistent h d' \<and> allWords d' = allWords d"
proof (cases "cacheSearchMap d p")
  case (Some xs)
  with assms show ?thesis by (auto simp: findPossible_hit consistent_def cache_ok_def)
next
  case None
  from assms(1) have ok: "index_ok h d" and cok: "cache_ok h d" by (simp_all add: consistent_def)
  from ok have len: "length (fastSearch d) = LONGEST_WORD h" by (simp add: index_ok_def)
  from None assms(2) have range: "length p < LONGEST_WORD h"
    using findPossible_miss_range [of d p h] len by (cases "length p < length (fastSearch d)") simp_all
  have d': "d' = (touch p d)\<lparr>cacheSearchMap := (cacheSearchMap d)(p \<mapsto> r)\<rparr>"
    using None assms(2) range len
    by (cases "length p \<le> 6") (auto simp: findPossible_miss_short findPossible_miss_long split: sum.splits)
  have r: "mset r = mset (answer h (allWords d) p)"
  proof (cases "length p \<le> 6")
    case True
    with None assms(2) range len have "r = bucket_of (fastSearch d ! length p) (getKey p)"
      by (simp add: findPossible_miss_short)
    with True ok range show ?thesis by (simp add: mset_answer_bucket)
  next
    case False
    with None assms(2) range len
    have "verify_contenders (touch p d) p (filter (\<lambda>i. p ! i \<noteq> ANY_CHAR h) [0 ..< length p])
               (bucket_of (fastSearch d ! length p) (getKey p)) [] = Inr r"
      by (auto simp: findPossible_miss_long split: sum.splits)
    from verify_contenders_Inr [OF this]
    have "r = filter (\<lambda>c. agrees h p (allWords d ! unat c))
                (bucket_of (fastSearch d ! length p) (getKey p))"
      by simp
    with mset_answer_bucket(2) [OF ok range False] show ?thesis by simp
  qed
  have "index_ok h d'"
    using ok by (simp add: index_ok_def d')
  moreover have "cache_ok h d'"
    using cok r range by (auto simp: cache_ok_def d')
  ultimately show ?thesis using r by (simp add: consistent_def d')
qed

lemma findPossible_consistent:
  assumes "consistent h d" and "findPossible h p d = Inr (r, d')"
  shows "consistent h d' \<and> allWords d' = allWords d"
  using findPossible_result [OF assms] by simp

text \<open>
  When a call returns: always for a pattern of at most 6 bytes inside the array; for a
  longer one when no contender is read beyond its terminating zero.
\<close>

lemma findPossible_total:
  assumes "consistent h d" and "length p < LONGEST_WORD h"
    and "length p \<le> 6 \<or>
      (\<forall>c\<in>set (registered (allWords d) (length p) (getKey p)).
         \<forall>i<length p. p ! i \<noteq> ANY_CHAR h \<longrightarrow> i \<le> length (allWords d ! unat c))"
  shows "\<exists>r d'. findPossible h p d = Inr (r, d')"
proof (cases "cacheSearchMap d p")
  case (Some xs)
  then show ?thesis by (simp add: findPossible_hit)
next
  case None
  from assms(1) have ok: "index_ok h d" by (simp add: consistent_def)
  then have len: "length (fastSearch d) = LONGEST_WORD h" by (simp add: index_ok_def)
  show ?thesis
  proof (cases "length p \<le> 6")
    case True
    with None assms(2) len show ?thesis by (simp add: findPossible_miss_short)
  next
    case False
    with assms(3) set_bucket_registered [OF ok assms(2)]
    have "\<forall>c\<in>set (bucket_of (fastSearch d ! length p) (getKey p)).
        unat c < length (allWords (touch p d)) \<and>
        (\<forall>i<length p. p ! i \<noteq> ANY_CHAR h \<longrightarrow> i \<le> length (allWords (touch p d) ! unat c))"
      by (auto dest: registered_in_table)
    from verify_contenders_total [OF this, of "[]"] obtain r
      where "verify_contenders (touch p d) p (filter (\<lambda>i. p ! i \<noteq> ANY_CHAR h) [0 ..< length p])
               (bucket_of (fastSearch d ! length p) (getKey p)) [] = Inr r"
      by blast
    with None False assms(2) len show ?thesis by (simp add: findPossible_miss_long)
  qed
qed

lemma findPossible_answer:
  assumes "consistent h d" and "length p < LONGEST_WORD h"
    and "length p \<le> 6 \<or> length (allWords d) \<le> 65536 \<or> (\<forall>i<length p. p ! i = ANY_CHAR h)"
  shows "\<exists>r d'. findPossible h p d = Inr (r, d') \<and> mset r = mset (answer h (allWords d) p)"
proof -
  have "length p \<le> 6 \<or>
      (\<forall>c\<in>set (registered (allWords d) (length p) (getKey p)).
         \<forall>i<length p. p ! i \<noteq> ANY_CHAR h \<longrightarrow> i \<le> length (allWords d ! unat c))"
  proof (cases "length p \<le> 6 \<or> (\<forall>i<length p. p ! i = ANY_CHAR h)")
    case True
    then show ?thesis by auto
  next
    case False
    with assms(3) have "length (allWords d) \<le> 65536" by auto
    then have "\<forall>c\<in>set (registered (allWords d) (length p) (getKey p)).
        length (allWords d ! unat c) = length p"
      by (auto dest: registered_resolves)
    then show ?thesis by simp
  qed
  from findPossible_total [OF assms(1,2) this] obtain r d'
    where "findPossible h p d = Inr (r, d')" by blast
  with findPossible_result [OF assms(1) this] show ?thesis by blast
qed

lemma permuted_bucket_of:
  "permuted (m key) (m' key) \<Longrightarrow> mset (bucket_of m' key) = mset (bucket_of m key)"
  by (cases "m key"; cases "m' key") (simp_all add: permuted_def bucket_of_def)

lemma shuffle_consistent:
  assumes "consistent h d" and "shuffle d d'"
  shows "consistent h d' \<and> allWords d' = allWords d"
proof -
  from assms(2) have aw: "allWords d' = allWords d"
    and fs: "list_all2 (\<lambda>m m'. \<forall>key. permuted (m key) (m' key)) (fastSearch d) (fastSearch d')"
    and ca: "\<And>p. permuted (cacheSearchMap d p) (cacheSearchMap d' p)"
    by (simp_all add: shuffle_def)
  from assms(1) have ok: "index_ok h d" and cok: "cache_ok h d" by (simp_all add: consistent_def)
  have "index_ok h d'"
    unfolding index_ok_def
  proof (intro conjI allI impI)
    from fs ok show "length (fastSearch d') = LONGEST_WORD h"
      by (simp add: index_ok_def list_all2_lengthD)
  next
    fix L key assume L: "L < LONGEST_WORD h"
    with ok have "L < length (fastSearch d)" by (simp add: index_ok_def)
    with fs have "permuted ((fastSearch d ! L) key) ((fastSearch d' ! L) key)"
      by (simp add: list_all2_conv_all_nth)
    then have "mset (bucket_of (fastSearch d' ! L) key) = mset (bucket_of (fastSearch d ! L) key)"
      by (rule permuted_bucket_of)
    with ok L aw show "mset (bucket_of (fastSearch d' ! L) key) = mset (registered (allWords d') L key)"
      by (simp add: index_ok_def)
  qed
  moreover have "cache_ok h d'"
    unfolding cache_ok_def
  proof (intro allI impI)
    fix p xs' assume c: "cacheSearchMap d' p = Some xs'"
    from ca [of p] c obtain xs where xs: "cacheSearchMap d p = Some xs" "mset xs = mset xs'"
      by (cases "cacheSearchMap d p") (simp_all add: permuted_def)
    with cok aw show "length p < LONGEST_WORD h \<and> mset xs' = mset (answer h (allWords d') p)"
      by (auto simp: cache_ok_def)
  qed
  ultimately show ?thesis using aw by (simp add: consistent_def)
qed

lemma loadDictionary_consistent:
  assumes "loadDictionary h content d0 = Inr d"
  shows "consistent h d \<and> allWords d = words_of h content \<and>
     (\<forall>w\<in>set (allWords d). length w < LONGEST_WORD h)"
proof (cases content)
  case None
  with assms have "d = reset h d0" by (simp add: loadDictionary_def)
  then show ?thesis
    using index_exact_reset [of h d0]
    by (simp add: consistent_def index_ok_def cache_ok_def index_exact_def words_of_def None reset_def)
next
  case (Some records)
  with assms have "load_records h records (reset h d0) = Inr d" by (simp add: loadDictionary_def)
  from load_records_index [OF this index_exact_reset]
  show ?thesis
    by (simp add: consistent_def index_ok_def cache_ok_def index_exact_def words_of_def Some reset_def)
qed

lemma reachable_beyond_array:
  assumes "consistent h d" and "LONGEST_WORD h \<le> length p"
  shows "findPossible h p d = Inl OutOfBounds"
proof -
  have "cacheSearchMap d p = None"
  proof (cases "cacheSearchMap d p")
    case (Some xs)
    with assms(1) have "length p < LONGEST_WORD h"
      unfolding consistent_def cache_ok_def by blast
    with assms(2) show ?thesis by simp
  qed simp
  moreover from assms have "\<not> length p < length (fastSearch d)"
    by (simp add: consistent_def index_ok_def)
  ultimately show ?thesis by (rule findPossible_miss_range)
qed

lemma reachable_consistent:
  assumes "reachable h content d"
  shows "consistent h d \<and> allWords d = words_of h content \<and>
     (\<forall>w\<in>set (allWords d). length w < LONGEST_WORD h)"
  using assms
proof induction
  case (loaded d0 d)
  then show ?case by (rule loadDictionary_consistent)
next
  case (shuffled d d')
  with shuffle_consistent [of h d d'] show ?case by simp
next
  case (queried d pattern r d')
  with findPossible_consistent [of h d pattern r d'] show ?case by simp
qed

subsection \<open>The small dictionary\<close>

lemma example_loads:
  "loadDictionary example_header example_file (new_dictionary example_header) = Inr example_dictionary"
proof -
  have "\<exists>d. load_records example_header (the example_file) (reset example_header (new_dictionary example_header)) = Inr d"
    by (rule load_records_total)
      (simp_all add: reset_def example_header_def example_file_def canonical_def toupper_def
        cleanString_def dosToWinCode_def isalpha_def toupper_char_def)
  then show ?thesis
    by (auto simp: example_dictionary_def loadDictionary_def example_file_def)
qed

lemma example_reachable: "reachable example_header example_file example_dictionary"
  using example_loads by (rule reachable.loaded)

lemma example_words:
  "allWords example_dictionary = [[202, 206, 210], [202, 200, 210], [202, 206, 210]]"
  using loadDictionary_consistent [OF example_loads]
  by (simp add: words_of_def example_header_def example_file_def canonical_def toupper_def
        cleanString_def dosToWinCode_def isalpha_def toupper_char_def)

subsection \<open>Which identifiers are in the answer\<close>

lemma fits_refl: "fits w w"
  by (simp add: fits_def)

lemma agrees_refl: "agrees h w w"
  by (simp add: agrees_def)

lemma id_in_answer:
  assumes "i < length ws" and "length (ws ! i) = length p" and "fits p (ws ! i)"
    and "length p \<le> 6 \<or> (length ws \<le> 65536 \<and> agrees h p (ws ! i))"
  shows "of_nat i \<in> set (answer h ws p)"
proof -
  from assms(1-3) have reg: "of_nat i \<in> set (registered ws (length p) (getKey p))"
    using key_match_iff [of "ws ! i" p] by (auto simp: set_registered)
  show ?thesis
  proof (cases "length p \<le> 6")
    case True
    with reg show ?thesis by (simp add: answer_def)
  next
    case False
    with assms(4) have small: "length ws \<le> 65536" and ag: "agrees h p (ws ! i)" by simp_all
    from small assms(1) have "unat (of_nat i :: 16 word) = i" by (simp add: unat_of_nat)
    with reg ag False show ?thesis by (simp add: answer_def)
  qed
qed

lemma answer_fits:
  assumes "c \<in> set (answer h ws p)"
  shows "\<exists>i<length ws. c = of_nat i \<and> length (ws ! i) = length p \<and> fits p (ws ! i)"
proof -
  from assms have "c \<in> set (registered ws (length p) (getKey p))"
    by (auto simp: answer_def split: if_splits)
  then obtain i where i: "c = of_nat i" "i < length ws" "length (ws ! i) = length p"
      "\<exists>m<64. getKey_mask (of_nat m) (ws ! i) = getKey p"
    by (auto simp: set_registered)
  with key_match_iff [of "ws ! i" p] show ?thesis by auto
qed

subsection \<open>A word matches itself (C1)\<close>

text \<open>
  C1, as amended. In every state of a loaded dictionary, \<open>findPossible\<close> called with a
  loaded word as the pattern returns, and the result contains the identifier of that
  word (the position \<open>i\<close> of the word in the word table, converted to \<open>uint16_t\<close> as
  \<open>loadDictionary\<close> does), which \<open>getFromIndex\<close> resolves to that word, provided the
  word table has at most \<open>2^16\<close> entries, the range of the identifier. Every loaded
  word is shorter than \<open>LONGEST_WORD\<close>, since it was stored in the array.
\<close>

theorem findPossible_contains_word:
  assumes "reachable h content d" and "i < length (allWords d)"
    and "length (allWords d) \<le> 65536"
  shows "\<exists>r d'. findPossible h (allWords d ! i) d = Inr (r, d') \<and> of_nat i \<in> set r \<and>
     getFromIndex d' (of_nat i) = Inr (allWords d ! i)"
proof -
  let ?w = "allWords d ! i"
  from reachable_consistent [OF assms(1)] assms(2)
  have con: "consistent h d" and len: "length ?w < LONGEST_WORD h" by simp_all
  from assms(3) have "length ?w \<le> 6 \<or> length (allWords d) \<le> 65536 \<or> (\<forall>i<length ?w. ?w ! i = ANY_CHAR h)"
    by blast
  from findPossible_answer [OF con len this] obtain r d'
    where r: "findPossible h ?w d = Inr (r, d')" "mset r = mset (answer h (allWords d) ?w)"
    by blast
  from findPossible_consistent [OF con r(1)] have aw: "allWords d' = allWords d" by simp
  from assms(2,3) have "of_nat i \<in> set (answer h (allWords d) ?w)"
    by (intro id_in_answer) (auto simp: fits_refl agrees_refl)
  with r have "of_nat i \<in> set r"
    by (metis mset_eq_setD)
  moreover from assms(2,3) have "unat (of_nat i :: 16 word) = i" by (simp add: unat_of_nat)
  with assms(2) aw have "getFromIndex d' (of_nat i) = Inr ?w"
    by (simp add: getFromIndex_def)
  ultimately show ?thesis using r(1) by blast
qed

theorem findPossible_contains_word_witness:
  "\<exists>r d'. findPossible example_header [202, 200, 210] example_dictionary = Inr (r, d') \<and> 1 \<in> set r \<and>
     getFromIndex d' 1 = Inr [202, 200, 210]"
  using findPossible_contains_word [OF example_reachable, of 1]
  by (simp add: example_words)

lemma big_loads:
  "loadDictionary example_header big_file (new_dictionary example_header) = Inr big_dictionary"
proof -
  have "\<exists>d. load_records example_header (the big_file)
      (reset example_header (new_dictionary example_header)) = Inr d"
    by (rule load_records_total)
      (auto simp: reset_def example_header_def big_file_def canonical_def toupper_def
        cleanString_def dosToWinCode_def isalpha_def toupper_char_def)
  then show ?thesis
    by (auto simp: big_dictionary_def loadDictionary_def big_file_def)
qed

lemma big_words:
  "allWords big_dictionary =
     replicate 65536 [192, 192, 192, 192, 192, 192, 193] @ [[192, 192, 192, 192, 192, 192, 194]]"
  using loadDictionary_consistent [OF big_loads]
  by (simp add: words_of_def example_header_def big_file_def canonical_def toupper_def
        cleanString_def dosToWinCode_def isalpha_def toupper_char_def)

lemma big_resolves:
  "allWords big_dictionary ! unat (c :: 16 word) = [192, 192, 192, 192, 192, 192, 193]"
proof -
  have "unat c < 65536" using unsigned_less [of c] by simp
  then show ?thesis by (simp add: big_words nth_append)
qed

text \<open>
  C1 as stated fails beyond the capacity of the identifier. The large dictionary has
  65536 records of one word of 7 letters and then a second word that differs in the last
  letter. The second word is in the word table at position 65536, so its identifier is
  0, which resolves to the first word: the verification of the long-pattern branch
  rejects every contender, and the result is empty.
\<close>

theorem findPossible_beyond_capacity:
  "allWords big_dictionary ! 65536 = [192, 192, 192, 192, 192, 192, 194] \<and>
   map_sum id fst (findPossible example_header [192, 192, 192, 192, 192, 192, 194] big_dictionary)
     = Inr []"
proof -
  let ?p = "[192, 192, 192, 192, 192, 192, 194] :: str"
  from loadDictionary_consistent [OF big_loads]
  have con: "consistent example_header big_dictionary" by simp
  have len: "length ?p < LONGEST_WORD example_header" by (simp add: example_header_def)
  have "\<exists>r d'. findPossible example_header ?p big_dictionary = Inr (r, d')"
    using con len by (rule findPossible_total) (simp add: big_resolves)
  then obtain r d' where r: "findPossible example_header ?p big_dictionary = Inr (r, d')"
    by blast
  have "\<not> agrees example_header ?p [192, 192, 192, 192, 192, 192, 193]"
    by (auto simp: agrees_def example_header_def intro!: exI [of _ 6])
  then have "answer example_header (allWords big_dictionary) ?p = []"
    by (simp add: answer_def big_resolves)
  with findPossible_result [OF con r] have "r = []" by simp
  moreover have "allWords big_dictionary ! 65536 = ?p"
    by (simp add: big_words nth_append)
  ultimately show ?thesis using r by simp
qed

subsection \<open>A pattern of unknown positions (C2)\<close>

lemma fits_all_unknown: "fits (replicate L 0) w"
  by (simp add: fits_def)

lemma agrees_all_unknown: "agrees h (replicate L (ANY_CHAR h)) w"
  by (simp add: agrees_def)

lemma answer_all_unknown:
  "answer h ws (replicate L (ANY_CHAR h)) = registered ws L (getKey (replicate L (ANY_CHAR h)))"
  by (simp add: answer_def agrees_all_unknown)

lemma set_answer_all_unknown:
  assumes "ANY_CHAR h = 0"
  shows "set (answer h ws (replicate L (ANY_CHAR h))) =
     {of_nat i | i. i < length ws \<and> length (ws ! i) = L}"
proof -
  have key: "(\<exists>m<64. getKey_mask (of_nat m) (ws ! i) = getKey (replicate L 0))"
    if "length (ws ! i) = L" for i
    using that key_match_iff [of "ws ! i" "replicate L 0"] by (simp add: fits_all_unknown)
  have "answer h ws (replicate L (ANY_CHAR h)) = registered ws L (getKey (replicate L 0))"
    using answer_all_unknown [of h ws L] by (simp add: assms)
  moreover have "set (registered ws L (getKey (replicate L 0))) =
      {of_nat i | i. i < length ws \<and> length (ws ! i) = L}"
    unfolding set_registered using key by auto
  ultimately show ?thesis by simp
qed

lemma count_map_const: "count (mset (map (\<lambda>_. idx) xs)) idx = length xs"
  by (induction xs) simp_all

lemma ids_of_twice:
  assumes "length w < 6"
  shows "2 \<le> count (mset (ids_of w idx 0)) idx"
proof -
  let ?P = "\<lambda>m. getKey_mask (of_nat m) w = 0"
  have k0: "getKey_mask 0 w = 0"
    by (cases w rule: length_cases) (simp_all add: getKey_mask_def key_case_def)
  have k32: "getKey_mask 32 w = 0"
    using assms by (cases w rule: length_cases) (simp_all add: getKey_mask_def key_case_def)
  have "{0, 32} \<subseteq> set (filter ?P [0 ..< 64])"
    using k0 k32 by simp
  then have "card {0, 32 :: nat} \<le> card (set (filter ?P [0 ..< 64]))"
    by (intro card_mono) simp_all
  also have "\<dots> \<le> length (filter ?P [0 ..< 64])"
    by (rule card_length)
  finally have "2 \<le> length (filter ?P [0 ..< 64])" by simp
  then show ?thesis
    by (simp only: ids_of_def count_map_const)
qed

lemma getKey_all_zero: "getKey (replicate L 0) = 0"
  by (cases "replicate L (0::byte)" rule: length_cases)
    (simp_all add: getKey_def key_byte_def)

lemma mset_chunk_concat:
  "x \<in> set xs \<Longrightarrow> mset (f x) \<subseteq># mset (concat (map f xs))"
  by (induction xs) (auto intro: subset_mset.order_trans)

lemma ids_of_in_registered:
  assumes "i < length ws" and "length (ws ! i) = L"
  shows "mset (ids_of (ws ! i) (of_nat i) key) \<subseteq># mset (registered ws L key)"
proof -
  let ?f = "\<lambda>i. if length (ws ! i) = L then ids_of (ws ! i) (of_nat i) key else []"
  from assms(1) have "i \<in> set [0 ..< length ws]" by simp
  then have "mset (?f i) \<subseteq># mset (concat (map ?f [0 ..< length ws]))"
    by (rule mset_chunk_concat)
  with assms(2) show ?thesis by (simp add: registered_def)
qed

lemma all_unknown_repeats:
  assumes "mset r = mset (answer h ws (replicate L 0))" and "L < 6" and "r \<noteq> []"
  shows "\<not> distinct r"
proof
  assume dist: "distinct r"
  from assms(3) obtain c where "c \<in> set r" by (cases r) auto
  with assms(1) have "c \<in> set (answer h ws (replicate L 0))" by (metis mset_eq_setD)
  from answer_fits [OF this] obtain i where i: "i < length ws" "c = of_nat i" "length (ws ! i) = L"
    by auto
  from assms(2) have ans: "answer h ws (replicate L 0) = registered ws L 0"
    by (simp add: answer_def getKey_all_zero)
  from i(3) assms(2) have "2 \<le> count (mset (ids_of (ws ! i) c 0)) c"
    by (intro ids_of_twice) simp
  also have "\<dots> \<le> count (mset (registered ws L 0)) c"
    using ids_of_in_registered [OF i(1,3), of 0] i(2) by (simp add: mset_subset_eq_count)
  also have "\<dots> = count (mset r) c" using assms(1) ans by simp
  also have "\<dots> \<le> 1" using dist by (simp add: distinct_count_atmost_1)
  finally show False by simp
qed

text \<open>
  C2, as amended. With the placeholder byte equal to zero (which \<open>getKey\<close> requires,
  since it packs the bytes of the pattern as they are) and a word table of at most
  \<open>2^16\<close> entries, the range of the identifier, a pattern of \<open>L\<close> placeholders, \<open>L\<close> inside
  the array, returns, as a set, exactly the identifiers of the loaded words of length
  \<open>L\<close>, and every returned identifier resolves to a word of length \<open>L\<close>. This holds as a
  set only: for \<open>L < 6\<close> a result that is not empty is never free of repetitions, because
  the masks that differ only at positions beyond the word give the same key.
\<close>

theorem findPossible_all_unknown:
  assumes "reachable h content d" and "ANY_CHAR h = 0" and "L < LONGEST_WORD h"
    and "length (allWords d) \<le> 65536"
  shows "\<exists>r d'. findPossible h (replicate L (ANY_CHAR h)) d = Inr (r, d') \<and>
     set r = {of_nat i | i. i < length (allWords d) \<and> length (allWords d ! i) = L} \<and>
     (\<forall>c\<in>set r. \<exists>w. getFromIndex d' c = Inr w \<and> length w = L) \<and>
     (L < 6 \<longrightarrow> r \<noteq> [] \<longrightarrow> \<not> distinct r)"
proof -
  let ?p = "replicate L (ANY_CHAR h)"
  from reachable_consistent [OF assms(1)] have con: "consistent h d" by simp
  from assms(3) have "length ?p < LONGEST_WORD h"
    "length ?p \<le> 6 \<or> length (allWords d) \<le> 65536 \<or> (\<forall>i<length ?p. ?p ! i = ANY_CHAR h)"
    by simp_all
  from findPossible_answer [OF con this] obtain r d'
    where r: "findPossible h ?p d = Inr (r, d')" "mset r = mset (answer h (allWords d) ?p)"
    by blast
  from findPossible_consistent [OF con r(1)] have aw: "allWords d' = allWords d" by simp
  from r(2) have "set r = set (answer h (allWords d) ?p)" by (rule mset_eq_setD)
  with set_answer_all_unknown [OF assms(2)]
  have set_r: "set r = {of_nat i | i. i < length (allWords d) \<and> length (allWords d ! i) = L}"
    by (simp only:)
  have resolve: "\<forall>c\<in>set r. \<exists>w. getFromIndex d' c = Inr w \<and> length w = L"
  proof
    fix c assume "c \<in> set r"
    with set_r obtain i where i: "c = of_nat i" "i < length (allWords d)" "length (allWords d ! i) = L"
      by blast
    with assms(4) have "unat c = i" by (simp add: unat_of_nat)
    with i aw show "\<exists>w. getFromIndex d' c = Inr w \<and> length w = L"
      by (simp add: getFromIndex_def)
  qed
  have "\<not> distinct r" if "L < 6" "r \<noteq> []"
    using r(2) that assms(2) by (intro all_unknown_repeats [of r h "allWords d" L]) simp_all
  with r(1) set_r resolve show ?thesis by blast
qed

theorem findPossible_all_unknown_witness:
  "\<exists>r d'. findPossible example_header (replicate 3 (ANY_CHAR example_header)) example_dictionary
       = Inr (r, d') \<and> set r = {0, 1, 2} \<and>
     (\<forall>c\<in>set r. \<exists>w. getFromIndex d' c = Inr w \<and> length w = 3) \<and> \<not> distinct r"
proof -
  have "{of_nat i | i. i < length (allWords example_dictionary) \<and> length (allWords example_dictionary ! i) = 3}
      = {0, 1, 2 :: 16 word}"
    apply (auto simp: example_words less_Suc_eq numeral_3_eq_3)
      apply (rule exI [of _ 0], simp)
     apply (rule exI [of _ 1], simp)
    apply (rule exI [of _ 2], simp)
    done
  with findPossible_all_unknown [OF example_reachable, of 3] show ?thesis
    by (auto simp: example_words example_header_def)
qed

lemma wrap_loads:
  "loadDictionary example_header wrap_file (new_dictionary example_header) = Inr wrap_dictionary"
proof -
  have "\<exists>d. load_records example_header (the wrap_file)
      (reset example_header (new_dictionary example_header)) = Inr d"
    by (rule load_records_total)
      (auto simp: reset_def example_header_def wrap_file_def canonical_def toupper_def
        cleanString_def dosToWinCode_def isalpha_def toupper_char_def)
  then show ?thesis
    by (auto simp: wrap_dictionary_def loadDictionary_def wrap_file_def)
qed

lemma wrap_words:
  "allWords wrap_dictionary = replicate 65536 [192, 192] @ [[192, 192, 192]]"
  using loadDictionary_consistent [OF wrap_loads]
  by (simp add: words_of_def example_header_def wrap_file_def canonical_def toupper_def
        cleanString_def dosToWinCode_def isalpha_def toupper_char_def)

text \<open>
  C2 as stated fails beyond the range of the identifier. The dictionary has 65536
  records of a word of 2 letters and then one word of 3 letters, whose identifier is 0.
  The pattern of 3 placeholders returns the identifier 0 and no other, and identifier 0
  resolves to the word of 2 letters at position 0: the result presents a word of a
  different length, and not the word of 3 letters.
\<close>

theorem all_unknown_beyond_capacity:
  "allWords wrap_dictionary ! 65536 = [192, 192, 192] \<and>
   map_sum id (set \<circ> fst)
     (findPossible example_header (replicate 3 (ANY_CHAR example_header)) wrap_dictionary) = Inr {0} \<and>
   getFromIndex wrap_dictionary 0 = Inr [192, 192]"
proof -
  let ?p = "replicate 3 (ANY_CHAR example_header)"
  let ?ws = "allWords wrap_dictionary"
  from loadDictionary_consistent [OF wrap_loads]
  have con: "consistent example_header wrap_dictionary" by simp
  have "length ?p < LONGEST_WORD example_header"
    "length ?p \<le> 6 \<or> length ?ws \<le> 65536 \<or> (\<forall>i<length ?p. ?p ! i = ANY_CHAR example_header)"
    by (simp_all add: example_header_def)
  from findPossible_answer [OF con this] obtain r d'
    where r: "findPossible example_header ?p wrap_dictionary = Inr (r, d')"
      "mset r = mset (answer example_header ?ws ?p)"
    by blast
  have any: "ANY_CHAR example_header = 0" by (simp add: example_header_def)
  have "{of_nat i | i. i < length ?ws \<and> length (?ws ! i) = 3} = {0 :: 16 word}"
  proof (intro equalityI subsetI)
    fix c :: "16 word" assume "c \<in> {of_nat i | i. i < length ?ws \<and> length (?ws ! i) = 3}"
    then obtain i where i: "c = of_nat i" "i < length ?ws" "length (?ws ! i) = 3" by blast
    have "i = 65536"
    proof (rule ccontr)
      assume "i \<noteq> 65536"
      with i(2) have "i < 65536" by (simp add: wrap_words)
      with i(3) show False by (simp add: wrap_words nth_append)
    qed
    with i(1) show "c \<in> {0}" by simp
  next
    fix c :: "16 word" assume "c \<in> {0}"
    then have "c = of_nat 65536" by simp
    moreover have "65536 < length ?ws \<and> length (?ws ! 65536) = 3"
      by (simp add: wrap_words nth_append)
    ultimately show "c \<in> {of_nat i | i. i < length ?ws \<and> length (?ws ! i) = 3}" by blast
  qed
  with set_answer_all_unknown [OF any, of ?ws 3] have "set (answer example_header ?ws ?p) = {0}"
    by (simp only:)
  with r(2) have "set r = {0}" by (metis mset_eq_setD)
  moreover have "?ws ! 65536 = [192, 192, 192]" by (simp add: wrap_words nth_append)
  moreover have "getFromIndex wrap_dictionary 0 = Inr [192, 192]"
    by (simp add: getFromIndex_def wrap_words nth_append)
  ultimately show ?thesis using r(1) by simp
qed

subsection \<open>Monotonicity (C3)\<close>

lemma fits_weaken:
  assumes "fits (p[k := c]) w" and "p ! k = 0"
  shows "fits p w"
  unfolding fits_def
proof (intro allI impI)
  fix j assume j: "j < min (length p) 6"
  show "p ! j = 0 \<or> p ! j = w ! j"
  proof (cases "j = k")
    case True
    with assms(2) show ?thesis by simp
  next
    case False
    with assms(1) j show ?thesis by (auto simp: fits_def)
  qed
qed

text \<open>
  C3. With the placeholder byte equal to zero, for a pattern \<open>p\<close> of at most 6 bytes
  (and inside the array) and a position \<open>k\<close> of \<open>p\<close> that holds the placeholder: in any
  two states \<open>d\<close> and \<open>e\<close> of the same loaded dictionary, both queries return and the
  identifiers returned for \<open>p\<close> with the byte \<open>c\<close> at position \<open>k\<close> are among those
  returned for \<open>p\<close>.
\<close>

theorem findPossible_monotone:
  assumes "reachable h content d" and "reachable h content e"
    and "ANY_CHAR h = 0" and "length p \<le> 6" and "length p < LONGEST_WORD h"
    and "k < length p" and "p ! k = ANY_CHAR h"
  shows "\<exists>r d' r' e'. findPossible h p d = Inr (r, d') \<and>
     findPossible h (p[k := c]) e = Inr (r', e') \<and> set r' \<subseteq> set r"
proof -
  let ?ws = "words_of h content"
  from reachable_consistent [OF assms(1)] have d: "consistent h d" "allWords d = ?ws" by simp_all
  from reachable_consistent [OF assms(2)] have e: "consistent h e" "allWords e = ?ws" by simp_all
  from assms(4) have short: "length q \<le> 6 \<or> length ?ws \<le> 65536 \<or> (\<forall>i<length q. q ! i = ANY_CHAR h)"
    if "length q = length p" for q using that by simp
  from findPossible_answer [OF d(1) assms(5)] short [of p] d(2) obtain r d'
    where r: "findPossible h p d = Inr (r, d')" "mset r = mset (answer h ?ws p)"
    by auto
  from findPossible_answer [OF e(1), of "p[k := c]"] short [of "p[k := c]"] assms(5) e(2) obtain r' e'
    where r': "findPossible h (p[k := c]) e = Inr (r', e')" "mset r' = mset (answer h ?ws (p[k := c]))"
    by auto
  have "set r' \<subseteq> set r"
  proof
    fix x assume "x \<in> set r'"
    with r'(2) have "x \<in> set (answer h ?ws (p[k := c]))" by (metis mset_eq_setD)
    from answer_fits [OF this] obtain i where i: "i < length ?ws" "x = of_nat i"
        "length (?ws ! i) = length p" "fits (p[k := c]) (?ws ! i)"
      by auto
    from i(4) assms(3,7) have "fits p (?ws ! i)" by (intro fits_weaken [of p k c]) simp_all
    with i(1,3) assms(4) have "of_nat i \<in> set (answer h ?ws p)"
      by (intro id_in_answer) simp_all
    with r(2) i(2) show "x \<in> set r" by (metis mset_eq_setD)
  qed
  with r(1) r'(1) show ?thesis by blast
qed

theorem findPossible_monotone_witness:
  "\<exists>r d' r' e'. findPossible example_header [202, 0, 210] example_dictionary = Inr (r, d') \<and>
     findPossible example_header [202, 206, 210] example_dictionary = Inr (r', e') \<and> set r' \<subseteq> set r"
  using findPossible_monotone [OF example_reachable example_reachable, of "[202, 0, 210]" 1 206]
  by (simp add: example_header_def)

subsection \<open>Patterns as long as the array (C4)\<close>

text \<open>
  C4. In every state of a loaded dictionary, a pattern of \<open>LONGEST_WORD\<close> or more bytes
  is never in the cache, and \<open>findPossible\<close> indexes \<open>_fastSearch\<close> at the length of the
  pattern without a check, beyond the last entry of the array.
\<close>

theorem findPossible_beyond_array:
  assumes "reachable h content d" and "LONGEST_WORD h \<le> length pattern"
  shows "findPossible h pattern d = Inl OutOfBounds"
  using reachable_consistent [OF assms(1)] assms(2) by (simp add: reachable_beyond_array)

theorem findPossible_beyond_array_witness:
  "findPossible example_header (replicate 8 (ANY_CHAR example_header)) example_dictionary = Inl OutOfBounds"
  using findPossible_beyond_array [OF example_reachable, of "replicate 8 (ANY_CHAR example_header)"]
  by (simp add: example_header_def)

subsection \<open>Querying twice (C8)\<close>

lemma shuffle_cache:
  assumes "shuffle d d'" and "cacheSearchMap d p = Some xs"
  shows "\<exists>ys. cacheSearchMap d' p = Some ys \<and> mset ys = mset xs"
proof -
  from assms(1) have "permuted (cacheSearchMap d p) (cacheSearchMap d' p)"
    by (simp add: shuffle_def)
  with assms(2) show ?thesis
    by (cases "cacheSearchMap d' p") (simp_all add: permuted_def)
qed

lemma shuffles_cache:
  assumes "shuffle\<^sup>*\<^sup>* d d'" and "cacheSearchMap d p = Some xs"
  shows "\<exists>ys. cacheSearchMap d' p = Some ys \<and> mset ys = mset xs"
  using assms
proof (induction rule: rtranclp_induct)
  case base
  then show ?case by simp
next
  case (step d' d'')
  then obtain ys where "cacheSearchMap d' p = Some ys" "mset ys = mset xs" by blast
  with shuffle_cache [OF step.hyps(2), of p ys] show ?case by auto
qed

lemma findPossible_cached:
  assumes "findPossible h p d = Inr (r, d')"
  shows "cacheSearchMap d' p = Some r"
proof (cases "cacheSearchMap d p")
  case (Some xs)
  with assms show ?thesis by (simp add: findPossible_hit)
next
  case None
  show ?thesis
  proof (cases "length p < length (fastSearch d)")
    case True
    with None assms show ?thesis
      by (cases "length p \<le> 6")
        (auto simp: findPossible_miss_short findPossible_miss_long split: sum.splits)
  next
    case False
    with None assms show ?thesis by (simp add: findPossible_miss_range)
  qed
qed

text \<open>
  C8. If \<open>findPossible\<close> returns on a pattern, in any state, then after any number of
  \<open>shuffle\<close> calls it returns on the same pattern again, leaves the state as it is, and
  its result is a rearrangement of the first one: the same identifiers, as a set and
  with the same multiplicities. And the first call does return in every state of a
  loaded dictionary, for a pattern inside the array of at most 6 bytes, or of any length
  when the word table has at most \<open>2^16\<close> entries.
\<close>

theorem findPossible_idempotent:
  "(findPossible h p d = Inr (r1, d1) \<and> shuffle\<^sup>*\<^sup>* d1 d2 \<longrightarrow>
      (\<exists>r2. findPossible h p d2 = Inr (r2, d2) \<and> set r2 = set r1 \<and> mset r2 = mset r1)) \<and>
   (reachable h content d \<and> length p < LONGEST_WORD h \<and>
      (length p \<le> 6 \<or> length (allWords d) \<le> 65536) \<longrightarrow>
      (\<exists>r d'. findPossible h p d = Inr (r, d')))"
proof (intro conjI impI)
  assume a: "findPossible h p d = Inr (r1, d1) \<and> shuffle\<^sup>*\<^sup>* d1 d2"
  then have "findPossible h p d = Inr (r1, d1)" by simp
  then have "cacheSearchMap d1 p = Some r1" by (rule findPossible_cached)
  from shuffles_cache [OF _ this, of d2] a obtain r2
    where r2: "cacheSearchMap d2 p = Some r2" "mset r2 = mset r1" by blast
  from r2(2) have "set r2 = set r1" by (rule mset_eq_setD)
  with r2 show "\<exists>r2. findPossible h p d2 = Inr (r2, d2) \<and> set r2 = set r1 \<and> mset r2 = mset r1"
    by (simp add: findPossible_hit)
next
  assume a: "reachable h content d \<and> length p < LONGEST_WORD h \<and>
      (length p \<le> 6 \<or> length (allWords d) \<le> 65536)"
  with reachable_consistent [of h content d] have con: "consistent h d" by simp
  from a have "length p < LONGEST_WORD h"
    "length p \<le> 6 \<or> length (allWords d) \<le> 65536 \<or> (\<forall>i<length p. p ! i = ANY_CHAR h)"
    by auto
  from findPossible_answer [OF con this] show "\<exists>r d'. findPossible h p d = Inr (r, d')" by blast
qed

lemma shuffle_reverse_buckets: "shuffle d (reverse_buckets d)"
proof -
  have "permuted x (map_option rev x)" for x
    by (cases x) (simp_all add: permuted_def)
  then show ?thesis
    by (simp add: shuffle_def reverse_buckets_def list_all2_conv_all_nth)
qed

theorem findPossible_idempotent_witness:
  "\<exists>r1 d1 r2. findPossible example_header [202, 0, 210] example_dictionary = Inr (r1, d1) \<and>
     findPossible example_header [202, 0, 210] (reverse_buckets d1) = Inr (r2, reverse_buckets d1) \<and>
     set r2 = set r1 \<and> mset r2 = mset r1"
proof -
  have "\<exists>r d'. findPossible example_header [202, 0, 210] example_dictionary = Inr (r, d')"
    using findPossible_idempotent [of example_header "[202, 0, 210]" example_dictionary _ _ _
        example_file, THEN conjunct2] example_reachable
    by (simp add: example_header_def)
  then obtain r1 d1
    where r1: "findPossible example_header [202, 0, 210] example_dictionary = Inr (r1, d1)"
    by blast
  have "shuffle\<^sup>*\<^sup>* d1 (reverse_buckets d1)"
    using shuffle_reverse_buckets by (rule r_into_rtranclp)
  with findPossible_idempotent [of example_header "[202, 0, 210]" example_dictionary r1 d1
      "reverse_buckets d1"] r1
  show ?thesis by blast
qed

subsection \<open>Records with the same canonical key (C7)\<close>


lemma map_of_find:
  "map_of (map (\<lambda>r. (f r, g r)) rs) k = map_option g (find (\<lambda>r. f r = k) rs)"
  by (induction rs) auto







subsection \<open>The configuration of the constructor (C5)\<close>

lemma read_config_never_default:
  "read_ini fs configFilePath = Inl e \<Longrightarrow> \<exists>e'. read_config fs configFilePath = Inl e'"
  by (simp add: read_config_def)

text \<open>
  C5. With a configuration path that cannot be read and a default configuration that
  is present and well formed, the constructor throws \<open>std::runtime_error\<close>: this is its
  only outcome. (In general \<open>read_config\<close> never reads the default path: see
  \<open>read_config_never_default\<close>.)
\<close>

theorem Dictionary_no_fallback:
  "Dictionary example_header example_filesystem ''my.ini'' outcome \<longleftrightarrow> outcome = Inl RuntimeError"
  by (simp add: Dictionary_def Dictionary_load_def read_config_def read_ini_def ifstream_opens_def
      example_filesystem_def DEFAULT_CONFIG_PATH_def)

subsection \<open>Edit distance (C6)\<close>

lemma levenstein_kitten_sitting:
  "levenstein [75, 73, 84, 84, 69, 78] [83, 73, 84, 84, 73, 78, 71] = 3"
  apply (simp add: levenstein_def)
  apply (simp add: levenstein_cell_def)
  done

text \<open>
  C6. \<open>levenstein\<close> writes 0 in the base row and the base column of the table, not
  the position: the distance it returns between the empty string and a string of one
  letter is 0, where the Levenshtein distance is 1. (On the strings KITTEN and SITTING
  it does return 3: see \<open>levenstein_kitten_sitting\<close>.)
\<close>

theorem levenstein_base_not_position:
  "levenstein [] [65] = 0 \<and> edit_distance [] [65] = 1"
  by (simp add: levenstein_def levenstein_cell_def)

subsection \<open>Canonical form of an upper-case word (C10)\<close>

text \<open>
  C10. A string whose bytes all lie in the upper-case range of the alphabet, from
  \<open>CYRILLIC_A - 32\<close> up to but excluding \<open>CYRILLIC_A\<close>, is left unchanged by the
  pipeline of \<open>loadDictionary\<close>: \<open>dosToWinCode\<close>, then \<open>cleanString\<close>, then
  \<open>toupper\<close>.
\<close>

theorem canonical_uppercase_identity:
  assumes "\<forall>c\<in>set w. CYRILLIC_A h - 32 \<le> uint c \<and> uint c < CYRILLIC_A h"
  shows "toupper h (cleanString h (dosToWinCode h w)) = w"
  using assms
  by (induction w) (simp_all add: toupper_def cleanString_def dosToWinCode_def isalpha_def toupper_char_def)

theorem canonical_uppercase_identity_witness:
  "toupper example_header (cleanString example_header (dosToWinCode example_header [202, 206, 210]))
     = [202, 206, 210]"
proof -
  have h: "\<forall>c\<in>set [202, 206, 210 :: byte].
      CYRILLIC_A example_header - 32 \<le> uint c \<and> uint c < CYRILLIC_A example_header"
    by (simp add: example_header_def)
  from canonical_uppercase_identity [OF h] show ?thesis .
qed

subsection \<open>Slot extraction (C9)\<close>

lemma run_end_ge: "j \<le> run_end blocked n j"
proof (induction blocked n j rule: run_end.induct)
  case (1 blocked n j)
  then show ?case
    by (subst run_end.simps) (auto split: if_splits)
qed

lemma run_end_le: "j \<le> n \<Longrightarrow> run_end blocked n j \<le> n"
proof (induction blocked n j rule: run_end.induct)
  case (1 blocked n j)
  then show ?case
    by (subst run_end.simps) auto
qed

lemma run_end_open: "j \<le> k \<Longrightarrow> k < run_end blocked n j \<Longrightarrow> \<not> blocked k"
proof (induction blocked n j rule: run_end.induct)
  case (1 blocked n j)
  show ?case
  proof (cases "j < n \<and> \<not> blocked j")
    case True
    with "1.prems" have k: "k < run_end blocked n (j + 1)"
      by (subst (asm) run_end.simps) simp
    show ?thesis
    proof (cases "k = j")
      case True
      with \<open>j < n \<and> \<not> blocked j\<close> show ?thesis by simp
    next
      case False
      with "1.prems"(1) have "j + 1 \<le> k" by simp
      from "1.IH" [OF True this k] show ?thesis .
    qed
  next
    case False
    with "1.prems" show ?thesis
      by (subst (asm) run_end.simps) simp
  qed
qed

lemma run_end_stop: "run_end blocked n j < n \<Longrightarrow> blocked (run_end blocked n j)"
proof (induction blocked n j rule: run_end.induct)
  case (1 blocked n j)
  show ?case
  proof (cases "j < n \<and> \<not> blocked j")
    case True
    then have eq: "run_end blocked n j = run_end blocked n (j + 1)"
      by (subst run_end.simps) simp
    with "1.IH" [OF True] "1.prems" show ?thesis by simp
  next
    case False
    then have eq: "run_end blocked n j = j"
      by (subst run_end.simps) auto
    with False "1.prems" show ?thesis by simp
  qed
qed

text \<open>A maximal run that starts at a boundary \<open>j\<close> ends where the scan from \<open>j\<close> stops.\<close>

lemma maximal_run_end:
  assumes "maximal_run blocked n j b"
  shows "b = run_end blocked n j"
proof -
  let ?e = "run_end blocked n j"
  from assms have jb: "j < b" "b \<le> n" and op: "\<And>k. j \<le> k \<Longrightarrow> k < b \<Longrightarrow> \<not> blocked k"
    and stop: "b = n \<or> blocked b"
    by (auto simp: maximal_run_def)
  have "?e \<le> n" using jb by (intro run_end_le) simp
  have "\<not> ?e < b"
  proof
    assume "?e < b"
    with jb have "?e < n" by simp
    then have "blocked ?e" by (rule run_end_stop)
    with op [of ?e] run_end_ge [of j blocked n] \<open>?e < b\<close> show False by simp
  qed
  moreover have "\<not> b < ?e"
  proof
    assume "b < ?e"
    with \<open>?e \<le> n\<close> stop have "blocked b" by auto
    with run_end_open [of j b blocked n] jb \<open>b < ?e\<close> show False by simp
  qed
  ultimately show ?thesis by simp
qed

lemma run_is_maximal:
  assumes "j < n" and "j = 0 \<or> blocked (j - 1)" and "j < run_end blocked n j"
  shows "maximal_run blocked n j (run_end blocked n j)"
  unfolding maximal_run_def
proof (intro conjI allI impI)
  show "j < run_end blocked n j" by (rule assms(3))
  show "run_end blocked n j \<le> n" using assms(1) by (intro run_end_le) simp
  then show "run_end blocked n j = n \<or> blocked (run_end blocked n j)"
    using run_end_stop [of blocked n j] by (cases "run_end blocked n j < n") simp_all
  show "j = 0 \<or> blocked (j - 1)" by (rule assms(2))
next
  fix k assume "j \<le> k \<and> k < run_end blocked n j"
  then show "\<not> blocked k" using run_end_open [of j k blocked n] by simp
qed

text \<open>No maximal run starts strictly inside the scanned cells or at the cell that stopped the scan.\<close>

lemma maximal_run_start:
  assumes "maximal_run blocked n a b" and "j \<le> a" and "a \<le> run_end blocked n j"
    and "j = 0 \<or> n \<le> j \<or> blocked (j - 1)"
  shows "a = j"
proof (rule ccontr)
  assume "a \<noteq> j"
  with assms(2) have ja: "j < a" by simp
  from assms(1) have ab: "a < b" "b \<le> n" and left: "a = 0 \<or> blocked (a - 1)"
    and op: "\<not> blocked a"
    by (auto simp: maximal_run_def)
  from ja left have "blocked (a - 1)" by simp
  moreover from ja assms(3) have "j \<le> a - 1" "a - 1 < run_end blocked n j" by simp_all
  then have "\<not> blocked (a - 1)" by (rule run_end_open)
  ultimately show False by simp
qed

lemma runs_from_spec:
  assumes "j = 0 \<or> n \<le> j \<or> blocked (j - 1)"
  shows "distinct (runs_from blocked n j) \<and>
     set (runs_from blocked n j) = {(a, b). j \<le> a \<and> maximal_run blocked n a b \<and> 2 \<le> b - a}"
  using assms
proof (induction blocked n j rule: runs_from.induct)
  case (1 blocked n j)
  let ?e = "run_end blocked n j"
  let ?S = "\<lambda>j. {(a, b). j \<le> a \<and> maximal_run blocked n a b \<and> 2 \<le> b - a}"
  show ?case
  proof (cases "j < n")
    case False
    then have "runs_from blocked n j = []" by (subst runs_from.simps) simp
    moreover from False have "?S j = {}" by (auto simp: maximal_run_def)
    ultimately show ?thesis by simp
  next
    case True
    with "1.prems" have left: "j = 0 \<or> blocked (j - 1)" by auto
    have ge: "j \<le> ?e" by (rule run_end_ge)
    have le: "?e \<le> n" using True by (intro run_end_le) simp
    have next_boundary: "?e + 1 = 0 \<or> n \<le> ?e + 1 \<or> blocked (?e + 1 - 1)"
      using le run_end_stop [of blocked n j] by (cases "?e < n") simp_all
    from "1.IH" [OF True next_boundary]
    have IH: "distinct (runs_from blocked n (?e + 1))" "set (runs_from blocked n (?e + 1)) = ?S (?e + 1)"
      by simp_all
    have unf: "runs_from blocked n j =
        (if ?e - j \<le> 1 then [] else [(j, ?e)]) @ runs_from blocked n (?e + 1)"
      using True by (subst runs_from.simps) simp
    have split: "?S j = (if ?e - j \<le> 1 then {} else {(j, ?e)}) \<union> ?S (?e + 1)"
    proof (intro equalityI subsetI)
      fix x assume "x \<in> ?S j"
      then obtain a b where x: "x = (a, b)" "j \<le> a" "maximal_run blocked n a b" "2 \<le> b - a"
        by auto
      show "x \<in> (if ?e - j \<le> 1 then {} else {(j, ?e)}) \<union> ?S (?e + 1)"
      proof (cases "a \<le> ?e")
        case True
        from maximal_run_start [OF x(3) x(2) True] "1.prems" have "a = j" by simp
        with x(3) have "b = ?e" by (simp add: maximal_run_end)
        with x \<open>a = j\<close> show ?thesis by simp
      next
        case False
        with x show ?thesis by simp
      qed
    next
      fix x assume x: "x \<in> (if ?e - j \<le> 1 then {} else {(j, ?e)}) \<union> ?S (?e + 1)"
      show "x \<in> ?S j"
      proof (cases "x \<in> ?S (?e + 1)")
        case True
        with ge show ?thesis by auto
      next
        case False
        with x have "x = (j, ?e)" "\<not> ?e - j \<le> 1" by (auto split: if_splits)
        with run_is_maximal [of j n blocked, OF True left] show ?thesis by simp
      qed
    qed
    show ?thesis
    proof (cases "?e - j \<le> 1")
      case True
      with IH unf split show ?thesis by simp
    next
      case False
      have "(j, ?e) \<notin> set (runs_from blocked n (?e + 1))"
        unfolding IH(2) using ge by simp
      with False IH(1) have "distinct (runs_from blocked n j)"
        by (simp add: unf)
      moreover from False IH(2) have "set (runs_from blocked n j) = ?S j"
        by (simp only: unf split if_False set_append list.set)
      ultimately show ?thesis by simp
    qed
  qed
qed

lemma isBox_inside:
  assumes "well_formed c" and "i < nat (N c)" and "j < nat (M c)"
  shows "isBox box c i j = Inr (box (board c ! i ! j))"
proof -
  from assms(1,2) have i: "i < length (board c)" by (auto simp: well_formed_def)
  with assms(1) have "int (length (board c ! i)) = M c" by (simp add: well_formed_def)
  with assms(3) i show ?thesis by (auto simp: isBox_def)
qed

lemma scan_row_run_end:
  assumes "well_formed c" and "i < nat (N c)"
  shows "scan_row box c i j = Inr (run_end (\<lambda>j. box (board c ! i ! j)) (nat (M c)) j)"
proof (induction "\<lambda>j. box (board c ! i ! j)" "nat (M c)" j rule: run_end.induct)
  case (1 j)
  show ?case
  proof (cases "j < nat (M c)")
    case True
    then have "int j < M c" by simp
    with True show ?thesis
      using "1.hyps" isBox_inside [OF assms True, of box]
      by (subst scan_row.simps, subst run_end.simps) simp
  next
    case False
    then have "\<not> int j < M c" by simp
    with False show ?thesis
      by (subst scan_row.simps, subst run_end.simps) simp
  qed
qed

lemma scan_col_run_end:
  assumes "well_formed c" and "j < nat (M c)"
  shows "scan_col box c j i = Inr (run_end (\<lambda>i. box (board c ! i ! j)) (nat (N c)) i)"
proof (induction "\<lambda>i. box (board c ! i ! j)" "nat (N c)" i rule: run_end.induct)
  case (1 i)
  show ?case
  proof (cases "i < nat (N c)")
    case True
    then have "int i < N c" by simp
    with True show ?thesis
      using "1.hyps" isBox_inside [OF assms(1) True assms(2), of box]
      by (subst scan_col.simps, subst run_end.simps) simp
  next
    case False
    then have "\<not> int i < N c" by simp
    with False show ?thesis
      by (subst scan_col.simps, subst run_end.simps) simp
  qed
qed

lemma row_slots_runs:
  assumes "well_formed c" and "i < nat (N c)"
  shows "row_slots box c i j slots =
     Inr (slots @ map (h_slot c i) (runs_from (\<lambda>j. box (board c ! i ! j)) (nat (M c)) j))"
proof (induction "\<lambda>j. box (board c ! i ! j)" "nat (M c)" j arbitrary: slots rule: runs_from.induct)
  case (1 j)
  let ?bl = "\<lambda>j. box (board c ! i ! j)"
  let ?e = "run_end ?bl (nat (M c)) j"
  show ?case
  proof (cases "j < nat (M c)")
    case True
    then have lt: "int j < M c" by simp
    have ge: "j \<le> ?e" by (rule run_end_ge)
    show ?thesis
    proof (cases "?e - j \<le> 1")
      case short: True
      with ge have "int ?e - int j \<le> 1" by simp
      with lt short True show ?thesis
        using "1.hyps" [OF True, of slots]
        by (subst row_slots.simps, subst runs_from.simps)
          (simp add: scan_row_run_end [OF assms])
    next
      case long: False
      with ge have "\<not> int ?e - int j \<le> 1" by simp
      with lt long True show ?thesis
        using "1.hyps" [OF True, of "slots @ [h_slot c i (j, ?e)]"]
        by (subst row_slots.simps, subst runs_from.simps)
          (simp add: scan_row_run_end [OF assms] h_slot_def)
    qed
  next
    case False
    then have "\<not> int j < M c" by simp
    with False show ?thesis
      by (subst row_slots.simps, subst runs_from.simps) simp
  qed
qed

lemma col_slots_runs:
  assumes "well_formed c" and "j < nat (M c)"
  shows "col_slots box c j i slots =
     Inr (slots @ map (v_slot c j) (runs_from (\<lambda>i. box (board c ! i ! j)) (nat (N c)) i))"
proof (induction "\<lambda>i. box (board c ! i ! j)" "nat (N c)" i arbitrary: slots rule: runs_from.induct)
  case (1 i)
  let ?bl = "\<lambda>i. box (board c ! i ! j)"
  let ?e = "run_end ?bl (nat (N c)) i"
  show ?case
  proof (cases "i < nat (N c)")
    case True
    then have lt: "int i < N c" by simp
    have ge: "i \<le> ?e" by (rule run_end_ge)
    show ?thesis
    proof (cases "?e - i \<le> 1")
      case short: True
      with ge have "int ?e - int i \<le> 1" by simp
      with lt short True show ?thesis
        using "1.hyps" [OF True, of slots]
        by (subst col_slots.simps, subst runs_from.simps)
          (simp add: scan_col_run_end [OF assms])
    next
      case long: False
      with ge have "\<not> int ?e - int i \<le> 1" by simp
      with lt long True show ?thesis
        using "1.hyps" [OF True, of "slots @ [v_slot c j (i, ?e)]"]
        by (subst col_slots.simps, subst runs_from.simps)
          (simp add: scan_col_run_end [OF assms] v_slot_def)
    qed
  next
    case False
    then have "\<not> int i < N c" by simp
    with False show ?thesis
      by (subst col_slots.simps, subst runs_from.simps) simp
  qed
qed

lemma all_rows_runs:
  assumes "well_formed c" and "i \<le> nat (N c)"
  shows "all_rows box c i slots =
     Inr (slots @ concat (map (\<lambda>i. map (h_slot c i)
            (runs_from (\<lambda>j. box (board c ! i ! j)) (nat (M c)) 0)) [i ..< nat (N c)]))"
  using assms(2)
proof (induction "nat (N c) - i" arbitrary: i slots)
  case 0
  then have "\<not> int i < N c" by simp
  with 0 show ?case by (subst all_rows.simps) simp
next
  case (Suc k)
  then have i: "i < nat (N c)" "int i < N c" by simp_all
  from Suc(2) have "k = nat (N c) - (i + 1)" by simp
  from Suc(1) [OF this] i(1)
  have "all_rows box c (i + 1) slots' =
     Inr (slots' @ concat (map (\<lambda>i. map (h_slot c i)
            (runs_from (\<lambda>j. box (board c ! i ! j)) (nat (M c)) 0)) [i + 1 ..< nat (N c)]))"
    for slots' by simp
  with i show ?case
    by (subst all_rows.simps) (simp add: row_slots_runs [OF assms(1)] upt_conv_Cons)
qed

lemma all_cols_runs:
  assumes "well_formed c" and "j \<le> nat (M c)"
  shows "all_cols box c j slots =
     Inr (slots @ concat (map (\<lambda>j. map (v_slot c j)
            (runs_from (\<lambda>i. box (board c ! i ! j)) (nat (N c)) 0)) [j ..< nat (M c)]))"
  using assms(2)
proof (induction "nat (M c) - j" arbitrary: j slots)
  case 0
  then have "\<not> int j < M c" by simp
  with 0 show ?case by (subst all_cols.simps) simp
next
  case (Suc k)
  then have j: "j < nat (M c)" "int j < M c" by simp_all
  from Suc(2) have "k = nat (M c) - (j + 1)" by simp
  from Suc(1) [OF this] j(1)
  have "all_cols box c (j + 1) slots' =
     Inr (slots' @ concat (map (\<lambda>j. map (v_slot c j)
            (runs_from (\<lambda>i. box (board c ! i ! j)) (nat (N c)) 0)) [j + 1 ..< nat (M c)]))"
    for slots' by simp
  with j show ?case
    by (subst all_cols.simps) (simp add: col_slots_runs [OF assms(1)] upt_conv_Cons)
qed

lemma mset_concat_upt: "mset (concat (map f [0 ..< n])) = (\<Sum>i<n. mset (f i))"
  by (induction n) simp_all

lemma mset_runs_from:
  "mset (runs_from blocked n 0) = mset_set {(a, b). maximal_run blocked n a b \<and> 2 \<le> b - a}"
proof -
  from runs_from_spec [of 0 n blocked]
  have "distinct (runs_from blocked n 0)"
    and "set (runs_from blocked n 0) = {(a, b). maximal_run blocked n a b \<and> 2 \<le> b - a}"
    by simp_all
  then show ?thesis by (metis mset_set_set)
qed

lemma no_runs_in_one_cell:
  "n \<le> 1 \<Longrightarrow> {(a, b). maximal_run blocked n a b \<and> 2 \<le> b - a} = {}"
  by (auto simp: maximal_run_def)

lemma one_run_when_open:
  assumes "2 \<le> n" and "\<forall>k<n. \<not> blocked k"
  shows "{(a, b). maximal_run blocked n a b \<and> 2 \<le> b - a} = {(0, n)}"
proof (intro equalityI subsetI)
  fix x assume "x \<in> {(a, b). maximal_run blocked n a b \<and> 2 \<le> b - a}"
  then obtain a b where x: "x = (a, b)" "maximal_run blocked n a b" by auto
  then have ab: "a < b" "b \<le> n" "a = 0 \<or> blocked (a - 1)" "b = n \<or> blocked b"
    by (auto simp: maximal_run_def)
  from ab(1,2) assms(2) have "\<not> blocked (a - 1)" by simp
  with ab(3) have "a = 0" by simp
  moreover have "b = n"
  proof (rule ccontr)
    assume "b \<noteq> n"
    with ab(2,4) assms(2) show False by simp
  qed
  ultimately show "x \<in> {(0, n)}" using x(1) by simp
next
  fix x :: "nat \<times> nat" assume "x \<in> {(0, n)}"
  with assms show "x \<in> {(a, b). maximal_run blocked n a b \<and> 2 \<le> b - a}"
    by (auto simp: maximal_run_def)
qed

text \<open>
  C9. On a board of \<open>N\<close> rows of \<open>M\<close> cells \<open>loadWords\<close> returns, and the slots it leaves
  in \<open>areas\<close> are, as a multiset, one horizontal slot for each maximal run of at least 2
  open cells of each row and one vertical slot for each maximal run of at least 2 open
  cells of each column, and nothing else: a run of one cell gives no slot. In particular
  a board of one cell has no slot, and a board of one row of \<open>M \<ge> 2\<close> open cells has
  exactly one slot, the horizontal one over the \<open>M\<close> cells.
\<close>

theorem loadWords_slots:
  assumes "well_formed c" and "\<forall>slots. mset (sort_areas slots) = mset slots"
  shows "\<exists>c'. loadWords box sort_areas c = Inr c' \<and>
     mset (areas c') =
       (\<Sum>i<nat (N c). image_mset (h_slot c i) (mset_set (h_runs box c i))) +
       (\<Sum>j<nat (M c). image_mset (v_slot c j) (mset_set (v_runs box c j))) \<and>
     (N c = 1 \<and> M c = 1 \<longrightarrow> areas c' = []) \<and>
     (N c = 1 \<and> 2 \<le> M c \<and> (\<forall>j<nat (M c). \<not> box (board c ! 0 ! j)) \<longrightarrow>
        areas c' = [h_slot c 0 (0, nat (M c))])"
proof -
  let ?H = "\<lambda>i. map (h_slot c i) (runs_from (\<lambda>j. box (board c ! i ! j)) (nat (M c)) 0)"
  let ?V = "\<lambda>j. map (v_slot c j) (runs_from (\<lambda>i. box (board c ! i ! j)) (nat (N c)) 0)"
  let ?slots = "concat (map ?H [0 ..< nat (N c)]) @ concat (map ?V [0 ..< nat (M c)])"
  let ?c' = "c\<lparr>areas := sort_areas ?slots\<rparr>"
  have load: "loadWords box sort_areas c = Inr ?c'"
    by (simp add: loadWords_def all_rows_runs [OF assms(1)] all_cols_runs [OF assms(1)])
  have H: "mset (?H i) = image_mset (h_slot c i) (mset_set (h_runs box c i))" for i
    by (simp only: mset_map mset_runs_from h_runs_def)
  have V: "mset (?V j) = image_mset (v_slot c j) (mset_set (v_runs box c j))" for j
    by (simp only: mset_map mset_runs_from v_runs_def)
  have all: "mset (areas ?c') =
       (\<Sum>i<nat (N c). image_mset (h_slot c i) (mset_set (h_runs box c i))) +
       (\<Sum>j<nat (M c). image_mset (v_slot c j) (mset_set (v_runs box c j)))"
    using assms(2) by (simp add: mset_concat_upt H V del: mset_map)
  have one: "areas ?c' = []" if "N c = 1 \<and> M c = 1"
  proof -
    from that have "h_runs box c 0 = {}" "v_runs box c 0 = {}"
      by (simp_all add: h_runs_def v_runs_def no_runs_in_one_cell)
    with all that show ?thesis by simp
  qed
  have row: "areas ?c' = [h_slot c 0 (0, nat (M c))]"
    if "N c = 1 \<and> 2 \<le> M c \<and> (\<forall>j<nat (M c). \<not> box (board c ! 0 ! j))"
  proof -
    from that have "2 \<le> nat (M c)" by linarith
    with that have "h_runs box c 0 = {(0, nat (M c))}"
      unfolding h_runs_def by (intro one_run_when_open) simp_all
    moreover from that have "v_runs box c j = {}" for j
      by (simp add: v_runs_def no_runs_in_one_cell)
    ultimately show ?thesis using all that by simp
  qed
  from load all one row show ?thesis by blast
qed

theorem loadWords_slots_witness:
  "\<exists>c'. loadWords (\<lambda>cell. cell = 0) rev board_1x3 = Inr c' \<and>
     areas c' = [\<lparr>hor = 1, letters = [((0, 0), 0), ((0, 1), 1), ((0, 2), 2)]\<rparr>]"
proof -
  have wf: "well_formed board_1x3" by (simp add: well_formed_def board_1x3_def)
  have srt: "\<forall>slots :: position list. mset (rev slots) = mset slots" by simp
  from loadWords_slots [OF wf srt, of "\<lambda>cell. cell = 0"] obtain c'
    where c': "loadWords (\<lambda>cell. cell = 0) rev board_1x3 = Inr c'"
      and row: "N board_1x3 = 1 \<and> 2 \<le> M board_1x3 \<and>
          (\<forall>j<nat (M board_1x3). \<not> board board_1x3 ! 0 ! j = 0) \<longrightarrow>
        areas c' = [h_slot board_1x3 0 (0, nat (M board_1x3))]"
    by blast
  have "\<forall>j<nat (M board_1x3). \<not> board board_1x3 ! 0 ! j = 0"
    by (auto simp: board_1x3_def less_Suc_eq numeral_3_eq_3)
  with row have "areas c' = [h_slot board_1x3 0 (0, nat (M board_1x3))]"
    by (simp add: board_1x3_def)
  moreover have "[0 ..< 3] = [0, 1, 2 :: nat]" by (simp add: upt_rec)
  ultimately have "areas c' = [\<lparr>hor = 1, letters = [((0, 0), 0), ((0, 1), 1), ((0, 2), 2)]\<rparr>]"
    by (simp add: board_1x3_def h_slot_def)
  with c' show ?thesis by blast
qed

text \<open>
  The slots of the 3 by 3 board, computed: two horizontal and three vertical slots; the
  single open cells of the last row give none.
\<close>

lemma loadWords_example:
  "loadWords (\<lambda>cell. cell = 0) (\<lambda>slots. slots) board_3x3 =
     Inr (board_3x3\<lparr>areas :=
       [\<lparr>hor = 1, letters = [((0, 1), 1), ((0, 2), 2)]\<rparr>,
        \<lparr>hor = 1, letters = [((1, 0), 3), ((1, 1), 4), ((1, 2), 5)]\<rparr>,
        \<lparr>hor = 0, letters = [((1, 0), 3), ((2, 0), 6)]\<rparr>,
        \<lparr>hor = 0, letters = [((0, 1), 1), ((1, 1), 4)]\<rparr>,
        \<lparr>hor = 0, letters = [((0, 2), 2), ((1, 2), 5), ((2, 2), 8)]\<rparr>]\<rparr>)"
  by (simp add: loadWords_def all_rows.simps all_cols.simps row_slots.simps col_slots.simps
      scan_row.simps scan_col.simps isBox_def board_3x3_def upt_rec)

end
